theory Spec2Isabelle
  imports Main "HOL-Library.Word" "HOL-Library.AList"
begin

section \<open>JavaScript values used by \<open>src/manager.ts\<close>\<close>

text \<open>
  A JavaScript string is a sequence of UTF-16 code units; \<open>length\<close>, \<open>slice\<close> and
  indexing count code units.  \<open>str\<close> writes an ASCII literal of the source.
\<close>

type_synonym jsstring = "16 word list"

definition str :: "string \<Rightarrow> jsstring" where
  "str s = map of_char s"

text \<open>
  \<open>Array.prototype.slice\<close> and \<open>String.prototype.slice\<close>: a negative index counts
  from the end, and every index is clamped to the length.
\<close>

definition relIndex :: "int \<Rightarrow> nat \<Rightarrow> nat" where
  "relIndex i n = (if i < 0 then nat (max (int n + i) 0) else min (nat i) n)"

definition slice :: "'a list \<Rightarrow> int \<Rightarrow> int \<Rightarrow> 'a list" where
  "slice xs start fin =
     (let k = relIndex start (length xs); f = relIndex fin (length xs)
      in take (f - k) (drop k xs))"

definition sliceFrom :: "'a list \<Rightarrow> int \<Rightarrow> 'a list" where
  "sliceFrom xs start = drop (relIndex start (length xs)) xs"

text \<open>
  \<open>Buffer.byteLength(s)\<close>: the length of the UTF-8 encoding of \<open>s\<close>.  A surrogate pair
  is one code point of four bytes; a lone surrogate is encoded as U+FFFD, three bytes.
\<close>

definition unitBytes :: "16 word \<Rightarrow> nat" where
  "unitBytes u = (if u < 0x80 then 1 else if u < 0x800 then 2 else 3)"

definition highSurrogate :: "16 word \<Rightarrow> bool" where
  "highSurrogate u = (0xD800 \<le> u \<and> u \<le> 0xDBFF)"

definition lowSurrogate :: "16 word \<Rightarrow> bool" where
  "lowSurrogate u = (0xDC00 \<le> u \<and> u \<le> 0xDFFF)"

fun byteLength :: "jsstring \<Rightarrow> nat" where
  "byteLength [] = 0"
| "byteLength [u] = unitBytes u"
| "byteLength (u # v # vs) =
     (if highSurrogate u \<and> lowSurrogate v then 4 + byteLength vs
      else unitBytes u + byteLength (v # vs))"

text \<open>\<open>byteIndex(content, index)\<close>, lines 169-172.\<close>

definition byteIndex :: "jsstring \<Rightarrow> int \<Rightarrow> nat" where
  "byteIndex content index = byteLength (slice content 0 index)"

section \<open>The data of the manager\<close>

text \<open>
  The label alphabet \<open>characters\<close>, lines 4-7: one string of one character for each
  character of the literal below, in declaration order.
\<close>

definition characters :: "jsstring list" where
  "characters = map (\<lambda>c. str [c]) ''abcdefghijklmnopqrstuvwxyz1234567890,.''"

text \<open>
  \<open>Position\<close> is what the position finder returns (\<open>pos.line\<close>, \<open>pos.character\<close>);
  \<open>Character\<close> is the interface of lines 9-12.  Their fields carry a prefix because
  the manager has a field \<open>character\<close> of its own.  Screen positions
  \<open>[number, number]\<close> are pairs of integers.
\<close>

record Position =
  pos_line :: nat
  pos_character :: nat

record Character =
  ch_position :: "int \<times> int"
  ch_character :: jsstring

text \<open>
  One result of a batched request: a number, or \<open>null\<close> (what a command returns).
\<close>

type_synonym reply = "int option"

text \<open>
  \<open>positionMap\<close> is a JavaScript \<open>Map\<close>: it iterates in insertion order and
  \<open>set\<close> on a key already present replaces the value in place, which is
  \<open>AList.update\<close> on an association list.
\<close>

type_synonym posmap = "(jsstring \<times> Character) list"

text \<open>
  The fields of class \<open>Manager\<close>, lines 15-23.  \<open>changeStart\<close> is never assigned
  nor used and is left out.  A field that starts undefined is an option.
\<close>

record manager =
  matchIds :: "reply list"
  positionMap :: posmap
  timeout :: int
  character :: "jsstring option"
  isForward :: bool
  jumpOnTrigger :: bool
  wordJump :: bool
  repeatPosition :: "(int \<times> int) option"

section \<open>The host\<close>

text \<open>
  Every request the manager sends to the editor, in the order it is issued.  The
  functions below return the list of requests next to the new manager.
\<close>

type_synonym rpcError = "jsstring \<times> jsstring \<times> jsstring"

datatype call =
    PauseNotification
  | ResumeNotification
  | CallCocUtilCursor
  | CallLineW0
  | CallGetlineDot
  | CallEvalVisibleLines
  | CommandSetConceallevel2
  | ShowMessage rpcError
  | CallAsyncGetchar
  | CallCursor int int
  | CallGetpos
  | CommandDoautocmdEnter
  | CallMatchaddposConceal int int jsstring
  | CallMatchaddposCursor int int
  | SetTimeout int
  | CommandFeedkeysEsc
  | SetVarActivated0
  | CommandDoautocmdLeave
  | CallClearmatches "reply list"

text \<open>
  What the editor answers during one run of \<open>jump\<close>: the first batch (an error, or
  cursor, top line of the window, text of the current line, visible lines), the key
  read when the search character is prompted for, line and column of
  \<open>getpos('.')\<close>, and the second batch (the results of the marker requests and an
  error or null).  Requests to the editor are assumed to be answered.
\<close>

record host =
  readReply :: "rpcError + ((int \<times> int) \<times> int \<times> jsstring \<times> jsstring list)"
  getcharReply :: jsstring
  getposReply :: "int \<times> int"
  markReply :: "reply list \<times> rpcError option"

text \<open>
  \<open>getPositions\<close> is imported from \<open>./util\<close>: search character, lines,
  \<open>wordJump\<close> and column offset to the positions found.  \<open>jump\<close> takes it as
  the parameter \<open>finder\<close>.
\<close>

type_synonym finder = "jsstring \<Rightarrow> jsstring list \<Rightarrow> bool \<Rightarrow> int \<Rightarrow> Position list"

section \<open>\<open>cancel\<close>, lines 152-161\<close>

definition cancel :: "manager \<Rightarrow> manager \<times> call list" where
  "cancel s =
     (if matchIds s = [] then (s, [])
      else (s\<lparr>matchIds := []\<rparr>,
            [PauseNotification, SetVarActivated0, CommandDoautocmdLeave,
             CallClearmatches (matchIds s), ResumeNotification]))"

section \<open>\<open>jump\<close>, lines 47-127\<close>

text \<open>The first batch, lines 50-56.\<close>

definition readCalls :: "call list" where
  "readCalls =
     [PauseNotification, CallCocUtilCursor, CallLineW0, CallGetlineDot,
      CallEvalVisibleLines, CommandSetConceallevel2, ResumeNotification]"

text \<open>
  \<open>if (!character)\<close>, line 62: an argument left out and the empty string are both
  falsy.
\<close>

definition falsy :: "jsstring option \<Rightarrow> bool" where
  "falsy c = (case c of None \<Rightarrow> True | Some v \<Rightarrow> v = [])"

text \<open>
  Lines 67-76: the lines and the column offset handed to the position finder.
  Assigning to index \<open>length - 1\<close> of an empty array adds no element.
\<close>

definition subRange ::
  "bool \<Rightarrow> int \<times> int \<Rightarrow> int \<Rightarrow> jsstring \<Rightarrow> jsstring list \<Rightarrow> jsstring list \<times> int" where
  "subRange isFwd cursor startline currline lines =
     (if \<not> isFwd then
        (let count = fst cursor - (startline - 1) + 1;
             ls = slice lines 0 count
         in (if ls = [] then ls
             else ls[length ls - 1 := slice currline 0 (snd cursor)], 0))
      else (sliceFrom lines (fst cursor - (startline - 1)), snd cursor + 1))"

text \<open>
  Lines 84-85 and 98-99: the screen line and column \<open>[line, col]\<close> of a position
  whose line is one of \<open>lines\<close>.
\<close>

definition screenAt ::
  "bool \<Rightarrow> int \<times> int \<Rightarrow> int \<Rightarrow> jsstring list \<Rightarrow> Position \<Rightarrow> int \<times> int" where
  "screenAt isFwd cursor startline lines pos =
     (startline + int (pos_line pos) + (if isFwd then fst cursor + 1 - startline else 0),
      int (byteIndex (lines ! pos_line pos) (int (pos_character pos))) + 1)"

text \<open>
  \<open>lines[pos.line]\<close> past the end is undefined, and \<open>byteIndex\<close> then raises a
  TypeError: \<open>None\<close>.
\<close>

definition screenPos ::
  "bool \<Rightarrow> int \<times> int \<Rightarrow> int \<Rightarrow> jsstring list \<Rightarrow> Position \<Rightarrow> (int \<times> int) option" where
  "screenPos isFwd cursor startline lines pos =
     (if pos_line pos < length lines then Some (screenAt isFwd cursor startline lines pos)
      else None)"

text \<open>
  Lines 62-66: the search character used, the argument or the key prompted for.
\<close>

definition searchCharacter :: "host \<Rightarrow> jsstring option \<Rightarrow> jsstring" where
  "searchCharacter h charArg = (if falsy charArg then getcharReply h else the charArg)"

text \<open>
  Lines 64-65: the direction and the character are stored only when the character
  was prompted for.
\<close>

definition prompted :: "host \<Rightarrow> manager \<Rightarrow> bool \<Rightarrow> jsstring option \<Rightarrow> manager" where
  "prompted h s isFwd charArg =
     (if falsy charArg then s\<lparr>isForward := isFwd, character := Some (getcharReply h)\<rparr>
      else s)"

text \<open>Line 79: \<open>if (!isForward) positions.reverse()\<close>.\<close>

definition ordered :: "bool \<Rightarrow> Position list \<Rightarrow> Position list" where
  "ordered isFwd positions = (if \<not> isFwd then rev positions else positions)"

text \<open>
  Lines 81-91.  With \<open>jumpOnTrigger\<close> the first position is shifted off, the cursor is
  sent there and that place is \<open>currpos\<close>; otherwise \<open>currpos\<close> is read with
  \<open>getpos\<close>.  The result is the requests, \<open>currpos\<close> and the positions left, or
  \<open>None\<close> for a TypeError.
\<close>

definition jumpToFirst ::
  "bool \<Rightarrow> host \<Rightarrow> (Position \<Rightarrow> (int \<times> int) option) \<Rightarrow> Position list
     \<Rightarrow> (call list \<times> (int \<times> int) \<times> Position list) option" where
  "jumpToFirst onTrigger h scr positions =
     (if onTrigger then
        (case positions of
           [] \<Rightarrow> None
         | first # rest \<Rightarrow>
             (case scr first of
                None \<Rightarrow> None
              | Some p \<Rightarrow> Some ([CallCursor (fst p) (snd p)], p, rest)))
      else Some ([CallGetpos], getposReply h, positions))"

text \<open>
  \<open>let ch = characters[i]; if (ch)\<close>, lines 97 and 100: past the end of the alphabet
  \<open>ch\<close> is undefined, and an empty string would be falsy too.
\<close>

definition characterAt :: "nat \<Rightarrow> jsstring option" where
  "characterAt i =
     (if i < length characters \<and> characters ! i \<noteq> [] then Some (characters ! i) else None)"

text \<open>
  The loop of lines 95-105, from index \<open>i\<close> on, with the map and \<open>remains\<close> built so
  far.  A TypeError leaves the loop with the map as it is then (\<open>Inl\<close>).
\<close>

fun assignLoop ::
  "(Position \<Rightarrow> (int \<times> int) option) \<Rightarrow> nat \<Rightarrow> Position list \<Rightarrow> posmap \<Rightarrow> (int \<times> int) list
     \<Rightarrow> posmap + posmap \<times> (int \<times> int) list" where
  "assignLoop scr i [] pm remains = Inr (pm, remains)"
| "assignLoop scr i (pos # ps) pm remains =
     (case scr pos of
        None \<Rightarrow> Inl pm
      | Some p \<Rightarrow>
          (case characterAt i of
             Some ch \<Rightarrow>
               assignLoop scr (Suc i) ps
                 (AList.update ch \<lparr>ch_position = p, ch_character = ch\<rparr> pm) remains
           | None \<Rightarrow> assignLoop scr (Suc i) ps pm (remains @ [p])))"

text \<open>The second batch, lines 108-120.\<close>

definition renderCalls :: "posmap \<Rightarrow> int \<times> int \<Rightarrow> (int \<times> int) list \<Rightarrow> call list" where
  "renderCalls pm currpos remains =
     [PauseNotification, CommandDoautocmdEnter]
     @ map (\<lambda>(k, v). CallMatchaddposConceal (fst (ch_position v)) (snd (ch_position v))
                        (ch_character v)) pm
     @ [CallMatchaddposCursor (fst currpos) (snd currpos)]
     @ map (\<lambda>p. CallMatchaddposConceal (fst p) (snd p) (str '';'')) remains
     @ [ResumeNotification]"

text \<open>
  \<open>getCharacter\<close> up to its \<open>await\<close>, lines 130-136: the key read is requested and
  one timer is armed with \<open>this.timeout || 1000\<close>.
\<close>

definition timerDelay :: "int \<Rightarrow> int" where
  "timerDelay t = (if t = 0 then 1000 else t)"

definition getCharacter_start :: "manager \<Rightarrow> call list" where
  "getCharacter_start s = [CallAsyncGetchar, SetTimeout (timerDelay (timeout s))]"

text \<open>
  How a run of \<open>jump\<close> ends: it returned without asking for a label key, it
  started \<open>getCharacter\<close>, or it raised.
\<close>

datatype outcome = Returned | Awaiting | Threw

text \<open>Lines 77-127, from the positions found on.\<close>

definition labelAndShow ::
  "host \<Rightarrow> manager \<Rightarrow> bool \<Rightarrow> int \<times> int \<Rightarrow> int \<Rightarrow> jsstring list \<Rightarrow> Position list \<Rightarrow> call list
     \<Rightarrow> manager \<times> call list \<times> outcome" where
  "labelAndShow h s isFwd cursor startline lines found log =
     (if found = [] then (s, log, Returned)
      else
        let scr = screenPos isFwd cursor startline lines;
            positions = ordered isFwd found
        in case jumpToFirst (jumpOnTrigger s) h scr positions of
             None \<Rightarrow> (s, log, Threw)
           | Some (moved, currpos, rest) \<Rightarrow>
               if rest = [] then (s, log @ moved, Returned)
               else
                 (case assignLoop scr 0 rest [] [] of
                    Inl pm \<Rightarrow> (s\<lparr>positionMap := pm\<rparr>, log @ moved, Threw)
                  | Inr (pm, remains) \<Rightarrow>
                      let s' = s\<lparr>positionMap := pm,
                                 repeatPosition := (case remains of [] \<Rightarrow> None | r # _ \<Rightarrow> Some r)\<rparr>;
                          shown = log @ moved @ renderCalls pm currpos remains
                      in (case snd (markReply h) of
                            Some e \<Rightarrow> (s', shown, Returned)
                          | None \<Rightarrow>
                              (s'\<lparr>matchIds := fst (markReply h)\<rparr>,
                               shown @ getCharacter_start s', Awaiting))))"

definition jump ::
  "finder \<Rightarrow> host \<Rightarrow> manager \<Rightarrow> bool \<Rightarrow> jsstring option \<Rightarrow> manager \<times> call list \<times> outcome" where
  "jump finder h s0 isFwd charArg =
     (let s1 = s0\<lparr>positionMap := []\<rparr> in
      case readReply h of
        Inl err \<Rightarrow> (s1, readCalls @ [ShowMessage err], Returned)
      | Inr (cursor, startline, currline, lines0) \<Rightarrow>
          let ch = searchCharacter h charArg;
              s2 = prompted h s1 isFwd charArg;
              log = readCalls @ (if falsy charArg then [CallAsyncGetchar] else []);
              sub = subRange isFwd cursor startline currline lines0
          in labelAndShow h s2 isFwd cursor startline (fst sub)
               (finder ch (fst sub) (wordJump s2) (snd sub)) log)"

text \<open>The four entry points, lines 31-45.\<close>

definition forward :: "finder \<Rightarrow> host \<Rightarrow> manager \<Rightarrow> manager \<times> call list \<times> outcome" where
  "forward finder h s = jump finder h s True None"

definition backward :: "finder \<Rightarrow> host \<Rightarrow> manager \<Rightarrow> manager \<times> call list \<times> outcome" where
  "backward finder h s = jump finder h s False None"

definition repeat :: "finder \<Rightarrow> host \<Rightarrow> manager \<Rightarrow> manager \<times> call list \<times> outcome" where
  "repeat finder h s = jump finder h s (isForward s) (character s)"

definition repeatOpposite :: "finder \<Rightarrow> host \<Rightarrow> manager \<Rightarrow> manager \<times> call list \<times> outcome" where
  "repeatOpposite finder h s = jump finder h s (\<not> isForward s) (character s)"

section \<open>\<open>getCharacter\<close>, lines 129-150\<close>

text \<open>
  The timer's callback, lines 132-136, with the value of \<open>finished\<close> when it runs.
\<close>

definition getCharacter_timer :: "bool \<Rightarrow> manager \<Rightarrow> manager \<times> call list" where
  "getCharacter_timer finished s =
     (if finished then (s, [])
      else (fst (cancel s), CommandFeedkeysEsc # snd (cancel s)))"

text \<open>
  Lines 137-149, once the key \<open>ch\<close> is read: the branch of line 139 is taken when
  \<open>ch\<close> is \<open>;\<close> and \<open>repeatPosition\<close> is defined.  The third component is the call
  \<open>this.jump(this.isForward, this.character)\<close> of line 142 when it is made, with its
  arguments; that call is not awaited.
\<close>

definition getCharacter_resume ::
  "manager \<Rightarrow> jsstring \<Rightarrow> manager \<times> call list \<times> (bool \<times> jsstring option) option" where
  "getCharacter_resume s ch =
     (case (ch = str '';'', repeatPosition s) of
        (True, Some p) \<Rightarrow>
          (fst (cancel s), snd (cancel s) @ [CallCursor (fst p) (snd p)],
           Some (isForward (fst (cancel s)), character (fst (cancel s))))
      | _ \<Rightarrow>
          (fst (cancel s),
           snd (cancel s)
           @ (case map_of (positionMap s) ch of
                None \<Rightarrow> []
              | Some v \<Rightarrow> [CallCursor (fst (ch_position v)) (snd (ch_position v))]),
           None))"

text \<open>
  One run of \<open>getCharacter\<close>.  Either the key is read first, and the timer finds
  \<open>finished\<close> set when it fires later; or the timer fires first, and the read then
  returns the key \<open>ch\<close> (the escape that the callback feeds to the editor).
\<close>

datatype arrival = KeyFirst jsstring | TimerFirst jsstring

definition getCharacter ::
  "manager \<Rightarrow> arrival \<Rightarrow> manager \<times> call list \<times> (bool \<times> jsstring option) option" where
  "getCharacter s a =
     (case a of
        KeyFirst ch \<Rightarrow>
          (let resumed = getCharacter_resume s ch;
               fired = getCharacter_timer True (fst resumed)
           in (fst fired, fst (snd resumed) @ snd fired, snd (snd resumed)))
      | TimerFirst ch \<Rightarrow>
          (let fired = getCharacter_timer False s;
               resumed = getCharacter_resume (fst fired) ch
           in (fst resumed, snd fired @ fst (snd resumed), snd (snd resumed))))"

section \<open>The position finder\<close>

text \<open>
  Modelled from the spec: \<open>getPositions\<close> of \<open>./util\<close>, which is not among the
  sources.  Section 4.1 of the specification: the result is every literal occurrence
  of the search character, only the occurrences at a word start when the
  word-boundary flag is set, in the order the lines and positions appear; the column
  offset applies to the first line only and excludes the characters before it.  What
  counts as a word start is left open there and is the parameter \<open>wordStart\<close>.
\<close>

definition occursAt :: "jsstring \<Rightarrow> jsstring \<Rightarrow> nat \<Rightarrow> bool" where
  "occursAt c l j = (c \<noteq> [] \<and> take (length c) (drop j l) = c)"

definition lineMatches ::
  "(jsstring \<Rightarrow> nat \<Rightarrow> bool) \<Rightarrow> jsstring \<Rightarrow> bool \<Rightarrow> int \<Rightarrow> nat \<Rightarrow> jsstring \<Rightarrow> Position list" where
  "lineMatches wordStart c wj offset i l =
     map (\<lambda>j. \<lparr>pos_line = i, pos_character = j\<rparr>)
       (filter (\<lambda>j. (0 < i \<or> offset \<le> int j) \<and> occursAt c l j
                    \<and> (if wj then wordStart l j else True))
          [0..<length l])"

definition getPositions :: "(jsstring \<Rightarrow> nat \<Rightarrow> bool) \<Rightarrow> finder" where
  "getPositions wordStart c lines wj offset =
     concat (map (\<lambda>(i, l). lineMatches wordStart c wj offset i l) (enumerate 0 lines))"

section \<open>The label table in closed form\<close>

text \<open>
  The table that pairs the symbols \<open>cs\<close> with the positions \<open>ps\<close> in order, as far as
  the shorter of the two goes; \<open>at\<close> gives the screen position of a candidate.  The
  loop of \<open>jump\<close> is compared with it below.
\<close>

definition labelsFor :: "(Position \<Rightarrow> int \<times> int) \<Rightarrow> jsstring list \<Rightarrow> Position list \<Rightarrow> posmap" where
  "labelsFor at cs ps = map (\<lambda>(ch, p). (ch, \<lparr>ch_position = at p, ch_character = ch\<rparr>)) (zip cs ps)"

section \<open>Kinds of request\<close>



section \<open>What the position finder is asked for\<close>

text \<open>
  Section 4.1 of the specification asks two things of the position finder that the
  properties of the scanned range rest on.  The column offset applies to the first line
  and excludes the characters before it: no position on line 0 lies before the offset.
  And positions come in the order of appearance: \<open>before p q\<close> says that \<open>p\<close> comes
  earlier in the text than \<open>q\<close>.
\<close>

definition honoursOffset :: "finder \<Rightarrow> bool" where
  "honoursOffset finder =
     (\<forall>c ls wj off. \<forall>p \<in> set (finder c ls wj off).
        pos_line p = 0 \<longrightarrow> off \<le> int (pos_character p))"

definition before :: "Position \<Rightarrow> Position \<Rightarrow> bool" where
  "before p q =
     (pos_line p < pos_line q \<or> pos_line p = pos_line q \<and> pos_character p < pos_character q)"

section \<open>Example inputs\<close>

text \<open>
  The manager as the constructor leaves it, lines 15-29, for the three values of the
  configuration.
\<close>

definition newManager :: "int \<Rightarrow> bool \<Rightarrow> bool \<Rightarrow> manager" where
  "newManager t onTrigger wordwise =
     \<lparr>matchIds = [], positionMap = [], timeout = t, character = None, isForward = True,
      jumpOnTrigger = onTrigger, wordJump = wordwise, repeatPosition = None\<rparr>"

text \<open>
  An editor showing the lines \<open>fox\<close>, \<open>box\<close>, \<open>cow\<close> from its first line, the cursor on
  the first character, where the user types \<open>o\<close>; and a finder that answers with the
  three places of \<open>o\<close> in these lines.
\<close>

definition foxHost :: host where
  "foxHost =
     \<lparr>readReply = Inr ((0, 0), 1, str ''fox'', [str ''fox'', str ''box'', str ''cow'']),
      getcharReply = str ''o'',
      getposReply = (1, 1),
      markReply = ([None, Some 4, Some 5, Some 6], None)\<rparr>"

definition foxFinder :: finder where
  "foxFinder c ls wj offset =
     [\<lparr>pos_line = 0, pos_character = 1\<rparr>, \<lparr>pos_line = 1, pos_character = 1\<rparr>,
      \<lparr>pos_line = 2, pos_character = 1\<rparr>]"

text \<open>
  An editor showing one line of sixty \<open>x\<close>, the cursor on the character of index 45;
  a finder that answers with every column of the first line from the offset on, which
  are the occurrences of \<open>x\<close> there; and a manager whose last jump went forward to
  \<open>x\<close> and left a repeat position behind.
\<close>

definition rowLine :: jsstring where
  "rowLine = str (replicate 60 CHR ''x'')"

definition rowHost :: host where
  "rowHost =
     \<lparr>readReply = Inr ((0, 45), 1, rowLine, [rowLine]),
      getcharReply = str ''x'',
      getposReply = (1, 46),
      markReply = (None # map (\<lambda>i. Some (int i)) [4..<49], None)\<rparr>"

definition rowFinder :: finder where
  "rowFinder c ls wj offset =
     (case ls of
        [] \<Rightarrow> []
      | l # _ \<Rightarrow> map (\<lambda>j. \<lparr>pos_line = 0, pos_character = j\<rparr>) [nat offset..<length l])"

definition rowManager :: manager where
  "rowManager =
     (newManager 1000 True True)
       \<lparr>character := Some (str ''x''), isForward := True, repeatPosition := Some (1, 40)\<rparr>"

text \<open>
  An editor showing the single line \<open>xx\<close> with the cursor on its first character,
  where the user types \<open>x\<close>.
\<close>

definition xxHost :: host where
  "xxHost =
     \<lparr>readReply = Inr ((0, 0), 1, str ''xx'', [str ''xx'']),
      getcharReply = str ''x'',
      getposReply = (1, 1),
      markReply = ([None, Some 4], None)\<rparr>"

text \<open>
  An editor showing six lines from its first line, the cursor on line 5, column 10
  (both counted from 0), where the user types \<open>x\<close>; before the cursor \<open>x\<close> occurs at
  line 2, column 1 and at line 5, column 3, and the finder answers with these two
  places in the order of appearance.
\<close>

definition sixLines :: "jsstring list" where
  "sixLines =
     [str ''abcdefghijkl'', str ''abcdefghijkl'', str ''axbcdefghijk'',
      str ''abcdefghijkl'', str ''abcdefghijkl'', str ''abcxdefghijkl'']"

definition sixHost :: host where
  "sixHost =
     \<lparr>readReply = Inr ((5, 10), 1, str ''abcxdefghijkl'', sixLines),
      getcharReply = str ''x'',
      getposReply = (6, 11),
      markReply = ([None, Some 4, Some 5, Some 6], None)\<rparr>"

definition sixFinder :: finder where
  "sixFinder c ls wj offset =
     [\<lparr>pos_line = 2, pos_character = 1\<rparr>, \<lparr>pos_line = 5, pos_character = 3\<rparr>]"

text \<open>
  An editor whose window starts at line 10 and shows four lines, two of them with
  characters outside ASCII: \<open>accentLine\<close> is \<open>x\<close>, U+00E9 (two bytes in UTF-8), \<open>y\<close>,
  \<open>o\<close>; \<open>clefLine\<close> is U+00E9, the surrogate pair of U+1D11E (four bytes), \<open>o\<close>.  The
  user types \<open>o\<close>.  In \<open>accentHost\<close> the cursor is on the first character of line 12
  and the finder answers with the \<open>o\<close> of that line and of the next, relative to the
  lines scanned forward; in \<open>accentHostBack\<close> the cursor is on the \<open>o\<close> of line 12 and the
  finder answers with the \<open>o\<close> of \<open>one\<close> and of \<open>two\<close>.
\<close>

definition accentLine :: jsstring where
  "accentLine = str ''x'' @ [0xE9] @ str ''yo''"

definition clefLine :: jsstring where
  "clefLine = [0xE9, 0xD834, 0xDD1E] @ str ''o''"

definition accentLines :: "jsstring list" where
  "accentLines = [str ''one'', str ''two'', accentLine, clefLine]"

definition accentHost :: host where
  "accentHost =
     \<lparr>readReply = Inr ((11, 0), 10, accentLine, accentLines),
      getcharReply = str ''o'',
      getposReply = (12, 1),
      markReply = ([None, Some 4, Some 5], None)\<rparr>"

definition accentFinder :: finder where
  "accentFinder c ls wj offset =
     [\<lparr>pos_line = 0, pos_character = 3\<rparr>, \<lparr>pos_line = 1, pos_character = 3\<rparr>]"

definition accentHostBack :: host where
  "accentHostBack =
     \<lparr>readReply = Inr ((11, 3), 10, accentLine, accentLines),
      getcharReply = str ''o'',
      getposReply = (12, 5),
      markReply = ([None, Some 4, Some 5], None)\<rparr>"

definition accentFinderBack :: finder where
  "accentFinderBack c ls wj offset =
     [\<lparr>pos_line = 0, pos_character = 0\<rparr>, \<lparr>pos_line = 1, pos_character = 2\<rparr>]"


section \<open>Auxiliary facts\<close>

lemma characters_length: "length characters = 38"
  by (simp add: characters_def)

lemma characters_distinct: "distinct characters"
  by (simp add: characters_def str_def)

lemma characters_nonempty: "[] \<notin> set characters"
  by (simp add: characters_def str_def)

lemma characterAt_lt: "i < 38 \<Longrightarrow> characterAt i = Some (characters ! i)"
proof -
  assume "i < 38"
  then have "characters ! i \<in> set characters"
    by (simp add: characters_length)
  with characters_nonempty have "characters ! i \<noteq> []"
    by metis
  with \<open>i < 38\<close> show ?thesis
    by (simp add: characterAt_def characters_length)
qed

lemma characterAt_ge: "38 \<le> i \<Longrightarrow> characterAt i = None"
  by (simp add: characterAt_def characters_length)

lemma update_fresh: "k \<notin> fst ` set al \<Longrightarrow> AList.update k v al = al @ [(k, v)]"
  by (induction al) auto

lemma nth_notin_take: "distinct xs \<Longrightarrow> i < length xs \<Longrightarrow> xs ! i \<notin> set (take i xs)"
  by (metis distinct_append id_take_nth_drop disjoint_iff list.set_intros(1))

lemma assignLoop_closed:
  assumes "\<forall>p \<in> set ps. scr p = Some (at p)"
    and "map fst pm = take i characters"
  shows "assignLoop scr i ps pm rs =
           Inr (pm @ labelsFor at (drop i characters) ps, rs @ map at (drop (38 - i) ps))"
  using assms
proof (induction ps arbitrary: i pm rs)
  case Nil
  then show ?case by (simp add: labelsFor_def)
next
  case (Cons p ps)
  have scr: "scr p = Some (at p)" using Cons.prems(1) by simp
  have rest: "\<forall>q \<in> set ps. scr q = Some (at q)" using Cons.prems(1) by simp
  show ?case
  proof (cases "i < 38")
    case True
    let ?ch = "characters ! i"
    let ?v = "\<lparr>ch_position = at p, ch_character = ?ch\<rparr>"
    have fresh: "?ch \<notin> fst ` set pm"
      using nth_notin_take[OF characters_distinct, of i] True Cons.prems(2)
      by (metis characters_length set_map)
    have keys: "map fst (pm @ [(?ch, ?v)]) = take (Suc i) characters"
      using True Cons.prems(2) by (simp add: take_Suc_conv_app_nth characters_length)
    have dr: "drop i characters = ?ch # drop (Suc i) characters"
      using True by (simp add: Cons_nth_drop_Suc characters_length)
    have sub: "38 - i = Suc (38 - Suc i)" using True by simp
    show ?thesis
      using Cons.IH[OF rest keys, of rs]
      by (simp add: scr characterAt_lt[OF True] update_fresh[OF fresh] dr sub labelsFor_def)
  next
    case False
    then have ge: "38 \<le> i" by simp
    have keys: "map fst pm = take (Suc i) characters"
      using ge Cons.prems(2) by (simp add: characters_length)
    have d0: "38 - i = 0" "37 - i = 0" using ge by simp_all
    have dr: "drop i characters = []" "drop (Suc i) characters = []"
      using ge by (simp_all add: characters_length)
    show ?thesis
      using Cons.IH[OF rest keys, of "rs @ [at p]"]
      by (simp add: scr characterAt_ge[OF ge] d0 dr labelsFor_def)
  qed
qed

lemma assignLoop_Inr_defined:
  "assignLoop scr i ps pm rs = Inr r \<Longrightarrow> \<forall>p \<in> set ps. scr p \<noteq> None"
  by (induction ps arbitrary: i pm rs) (auto split: option.splits)

lemma update_keys: "fst ` set (AList.update k v al) = insert k (fst ` set al)"
  by (induction al) auto

lemma characterAt_in: "characterAt i = Some ch \<Longrightarrow> ch \<in> set characters"
  by (auto simp: characterAt_def split: if_splits)

lemma assignLoop_keys:
  "assignLoop scr i ps pm rs = r \<Longrightarrow>
     fst ` set (case r of Inl pm' \<Rightarrow> pm' | Inr (pm', rs') \<Rightarrow> pm') \<subseteq> fst ` set pm \<union> set characters"
proof (induction ps arbitrary: i pm rs)
  case Nil
  then show ?case by auto
next
  case (Cons p ps)
  show ?case
  proof (cases "scr p")
    case None
    with Cons.prems show ?thesis by auto
  next
    case (Some q)
    show ?thesis
    proof (cases "characterAt i")
      case None
      with Some Cons.prems Cons.IH[of "Suc i" pm "rs @ [q]"] show ?thesis by simp
    next
      case (Some ch)
      with \<open>scr p = Some q\<close> Cons.prems
        Cons.IH[of "Suc i" "AList.update ch \<lparr>ch_position = q, ch_character = ch\<rparr> pm" rs]
        characterAt_in[OF Some]
      show ?thesis by (auto simp: update_keys)
    qed
  qed
qed


lemma screenPos_Some: "pos_line p < length lines \<Longrightarrow> screenPos f c sl lines p = Some (screenAt f c sl lines p)"
  by (simp add: screenPos_def)

lemma screenPos_defined: "screenPos f c sl lines p \<noteq> None \<Longrightarrow> screenPos f c sl lines p = Some (screenAt f c sl lines p)"
  by (simp add: screenPos_def split: if_splits)

lemma assignLoop_screen:
  assumes "assignLoop (screenPos f c sl lines) 0 ps [] [] = r"
    and "\<forall>p \<in> set ps. screenPos f c sl lines p \<noteq> None"
  shows "r = Inr (labelsFor (screenAt f c sl lines) characters ps, map (screenAt f c sl lines) (drop 38 ps))"
proof -
  have "\<forall>p \<in> set ps. screenPos f c sl lines p = Some (screenAt f c sl lines p)"
    using assms(2) screenPos_defined by blast
  from assignLoop_closed[OF this, of "[]" 0 "[]"] assms(1) show ?thesis by simp
qed

lemma labelAndShow_keys:
  "fst ` set (positionMap (fst (labelAndShow h s isFwd cursor startline lines found log)))
     \<subseteq> fst ` set (positionMap s) \<union> set characters"
proof -
  let ?scr = "screenPos isFwd cursor startline lines"
  show ?thesis
  proof (cases "found = []")
    case True
    then show ?thesis by (simp add: labelAndShow_def)
  next
    case False
    show ?thesis
    proof (cases "jumpToFirst (jumpOnTrigger s) h ?scr (ordered isFwd found)")
      case None
      with False show ?thesis by (simp add: labelAndShow_def)
    next
      case (Some t)
      obtain moved currpos rest where t: "t = (moved, currpos, rest)" by (cases t) auto
      show ?thesis
      proof (cases "rest = []")
        case True
        with False Some t show ?thesis by (simp add: labelAndShow_def)
      next
        case nonempty: False
        from assignLoop_keys[OF refl, of ?scr 0 rest "[]" "[]"]
        have k: "fst ` set (case assignLoop ?scr 0 rest [] [] of Inl pm' \<Rightarrow> pm' | Inr (pm', rs') \<Rightarrow> pm')
                   \<subseteq> set characters" by simp
        show ?thesis
        proof (cases "assignLoop ?scr 0 rest [] []")
          case (Inl pm)
          with k False Some t nonempty show ?thesis
            by (auto simp: labelAndShow_def)
        next
          case (Inr pr)
          obtain pm remains where pr: "pr = (pm, remains)" by (cases pr) auto
          from k Inr pr have "fst ` set pm \<subseteq> set characters" by simp
          with False Some t nonempty Inr pr show ?thesis
            by (auto simp: labelAndShow_def Let_def split: option.splits)
        qed
      qed
    qed
  qed
qed

lemma prompted_fields:
  "positionMap (prompted h s isFwd charArg) = positionMap s"
  "jumpOnTrigger (prompted h s isFwd charArg) = jumpOnTrigger s"
  "wordJump (prompted h s isFwd charArg) = wordJump s"
  "timeout (prompted h s isFwd charArg) = timeout s"
  "matchIds (prompted h s isFwd charArg) = matchIds s"
  by (simp_all add: prompted_def)

lemma jump_Inr:
  assumes "readReply h = Inr (cursor, startline, currline, lines0)"
  shows "jump finder h s0 isFwd charArg =
           labelAndShow h (prompted h (s0\<lparr>positionMap := []\<rparr>) isFwd charArg) isFwd cursor startline
             (fst (subRange isFwd cursor startline currline lines0))
             (finder (searchCharacter h charArg)
                (fst (subRange isFwd cursor startline currline lines0)) (wordJump s0)
                (snd (subRange isFwd cursor startline currline lines0)))
             (readCalls @ (if falsy charArg then [CallAsyncGetchar] else []))"
  by (simp add: jump_def assms Let_def prompted_fields)

lemma jump_Inl:
  assumes "readReply h = Inl e"
  shows "jump finder h s0 isFwd charArg = (s0\<lparr>positionMap := []\<rparr>, readCalls @ [ShowMessage e], Returned)"
  by (simp add: jump_def assms)

lemma jump_keys:
  "fst ` set (positionMap (fst (jump finder h s0 isFwd charArg))) \<subseteq> set characters"
proof (cases "readReply h")
  case (Inl e)
  then show ?thesis by (simp add: jump_Inl)
next
  case (Inr r)
  obtain cursor startline currline lines0 where r: "r = (cursor, startline, currline, lines0)"
    by (cases r) auto
  from Inr r have rr: "readReply h = Inr (cursor, startline, currline, lines0)" by simp
  show ?thesis
    unfolding jump_Inr[OF rr]
    using labelAndShow_keys[of h "prompted h (s0\<lparr>positionMap := []\<rparr>) isFwd charArg" isFwd cursor startline]
    by (simp add: prompted_fields)
qed


lemma jumpToFirst_True:
  "jumpToFirst True h scr ps = Some (moved, currpos, rest) \<Longrightarrow>
     \<exists>first. ps = first # rest \<and> scr first = Some currpos
       \<and> moved = [CallCursor (fst currpos) (snd currpos)]"
  by (auto simp: jumpToFirst_def split: list.splits option.splits)

lemma jumpToFirst_False:
  "jumpToFirst False h scr ps = Some (moved, currpos, rest) \<Longrightarrow>
     rest = ps \<and> currpos = getposReply h \<and> moved = [CallGetpos]"
  by (auto simp: jumpToFirst_def)

lemma labelAndShow_Awaiting:
  assumes "labelAndShow h s isFwd cursor startline lines found log = (s', log', Awaiting)"
  shows "\<exists>moved currpos rest.
      jumpToFirst (jumpOnTrigger s) h (screenPos isFwd cursor startline lines) (ordered isFwd found)
        = Some (moved, currpos, rest)
    \<and> rest \<noteq> [] \<and> snd (markReply h) = None
    \<and> (\<forall>p \<in> set rest. pos_line p < length lines)
    \<and> s' = s\<lparr>positionMap := labelsFor (screenAt isFwd cursor startline lines) characters rest,
              repeatPosition := (case map (screenAt isFwd cursor startline lines) (drop 38 rest) of
                                   [] \<Rightarrow> None | r # _ \<Rightarrow> Some r),
              matchIds := fst (markReply h)\<rparr>
    \<and> log' = log @ moved
        @ renderCalls (labelsFor (screenAt isFwd cursor startline lines) characters rest) currpos
            (map (screenAt isFwd cursor startline lines) (drop 38 rest))
        @ getCharacter_start s"
proof -
  let ?scr = "screenPos isFwd cursor startline lines"
  let ?at = "screenAt isFwd cursor startline lines"
  from assms have f: "found \<noteq> []" by (auto simp: labelAndShow_def)
  from assms f obtain t where t: "jumpToFirst (jumpOnTrigger s) h ?scr (ordered isFwd found) = Some t"
    by (cases "jumpToFirst (jumpOnTrigger s) h ?scr (ordered isFwd found)") (auto simp: labelAndShow_def)
  obtain moved currpos rest where tt: "t = (moved, currpos, rest)" by (cases t) auto
  from assms f t tt have ne: "rest \<noteq> []" by (auto simp: labelAndShow_def split: if_splits)
  from assms f t tt ne obtain pr where pr: "assignLoop ?scr 0 rest [] [] = Inr pr"
    by (cases "assignLoop ?scr 0 rest [] []") (auto simp: labelAndShow_def)
  from assignLoop_Inr_defined[OF pr] have def: "\<forall>p \<in> set rest. ?scr p \<noteq> None" .
  then have inr: "\<forall>p \<in> set rest. pos_line p < length lines"
    by (auto simp: screenPos_def split: if_splits)
  from assignLoop_screen[OF pr def]
  have pr': "pr = (labelsFor ?at characters rest, map ?at (drop 38 rest))" by simp
  from assms f t tt ne pr pr' have mr: "snd (markReply h) = None"
    by (cases "snd (markReply h)") (auto simp: labelAndShow_def Let_def)
  from assms f t tt ne pr pr' mr
  have "s' = s\<lparr>positionMap := labelsFor ?at characters rest,
              repeatPosition := (case map ?at (drop 38 rest) of [] \<Rightarrow> None | r # _ \<Rightarrow> Some r),
              matchIds := fst (markReply h)\<rparr>"
    and "log' = log @ moved @ renderCalls (labelsFor ?at characters rest) currpos (map ?at (drop 38 rest))
        @ getCharacter_start s"
    by (auto simp: labelAndShow_def Let_def getCharacter_start_def)
  with t tt ne mr inr show ?thesis by blast
qed



lemma labelsFor_keys: "map fst (labelsFor at cs ps) = take (length ps) cs"
  unfolding labelsFor_def
  by (induction cs ps rule: list_induct2') (auto)


lemma labelAndShow_run:
  assumes "found \<noteq> []"
    and "jumpToFirst (jumpOnTrigger s) h (screenPos isFwd cursor startline lines) (ordered isFwd found)
           = Some (moved, currpos, rest)"
    and "\<forall>p \<in> set rest. pos_line p < length lines"
  shows "labelAndShow h s isFwd cursor startline lines found log =
     (if rest = [] then (s, log @ moved, Returned)
      else
        (case snd (markReply h) of
           Some e \<Rightarrow>
             (s\<lparr>positionMap := labelsFor (screenAt isFwd cursor startline lines) characters rest,
                repeatPosition := (case map (screenAt isFwd cursor startline lines) (drop 38 rest) of
                                     [] \<Rightarrow> None | r # _ \<Rightarrow> Some r)\<rparr>,
              log @ moved
              @ renderCalls (labelsFor (screenAt isFwd cursor startline lines) characters rest) currpos
                  (map (screenAt isFwd cursor startline lines) (drop 38 rest)),
              Returned)
         | None \<Rightarrow>
             (s\<lparr>positionMap := labelsFor (screenAt isFwd cursor startline lines) characters rest,
                repeatPosition := (case map (screenAt isFwd cursor startline lines) (drop 38 rest) of
                                     [] \<Rightarrow> None | r # _ \<Rightarrow> Some r),
                matchIds := fst (markReply h)\<rparr>,
              log @ moved
              @ renderCalls (labelsFor (screenAt isFwd cursor startline lines) characters rest) currpos
                  (map (screenAt isFwd cursor startline lines) (drop 38 rest))
              @ getCharacter_start s,
              Awaiting)))"
proof -
  let ?scr = "screenPos isFwd cursor startline lines"
  let ?at = "screenAt isFwd cursor startline lines"
  have "\<forall>p \<in> set rest. ?scr p \<noteq> None"
    using assms(3) by (simp add: screenPos_def)
  from assignLoop_screen[OF refl this]
  have run: "assignLoop ?scr 0 rest [] [] = Inr (labelsFor ?at characters rest, map ?at (drop 38 rest))"
    by simp
  show ?thesis
    by (simp add: labelAndShow_def assms(1) assms(2) run Let_def getCharacter_start_def
        split: option.splits)
qed

lemma col2: "byteIndex (str ''fox'') 1 = 1" "byteIndex (str ''box'') 1 = 1" "byteIndex (str ''cow'') 1 = 1"
  by (simp_all add: byteIndex_def slice_def relIndex_def str_def unitBytes_def)

lemma jump_Awaiting:
  assumes "jump finder h s0 isFwd charArg = (s', log, Awaiting)"
    and "readReply h = Inr (cursor, startline, currline, lines0)"
    and "sub = subRange isFwd cursor startline currline lines0"
    and "positions = ordered isFwd (finder (searchCharacter h charArg) (fst sub) (wordJump s0) (snd sub))"
    and "rest = (if jumpOnTrigger s0 then tl positions else positions)"
  shows "rest \<noteq> []"
    and "\<forall>p \<in> set rest. pos_line p < length (fst sub)"
    and "s' = (prompted h (s0\<lparr>positionMap := []\<rparr>) isFwd charArg)
             \<lparr>positionMap := labelsFor (screenAt isFwd cursor startline (fst sub)) characters rest,
              repeatPosition := (case map (screenAt isFwd cursor startline (fst sub)) (drop 38 rest) of
                                   [] \<Rightarrow> None | r # _ \<Rightarrow> Some r),
              matchIds := fst (markReply h)\<rparr>"
    and "snd (markReply h) = None"
    and "\<exists>pre. log = pre @ getCharacter_start s0"
proof -
  let ?s = "prompted h (s0\<lparr>positionMap := []\<rparr>) isFwd charArg"
  let ?found = "finder (searchCharacter h charArg) (fst sub) (wordJump s0) (snd sub)"
  let ?at = "screenAt isFwd cursor startline (fst sub)"
  have "labelAndShow h ?s isFwd cursor startline (fst sub) ?found
         (readCalls @ (if falsy charArg then [CallAsyncGetchar] else [])) = (s', log, Awaiting)"
    using jump_Inr[OF assms(2), of finder s0 isFwd charArg] assms(1) assms(3) by simp
  from labelAndShow_Awaiting[OF this]
  obtain moved currpos rest' where
    j: "jumpToFirst (jumpOnTrigger ?s) h (screenPos isFwd cursor startline (fst sub)) (ordered isFwd ?found)
          = Some (moved, currpos, rest')"
    and ne: "rest' \<noteq> []" and mr: "snd (markReply h) = None"
    and inr: "\<forall>p \<in> set rest'. pos_line p < length (fst sub)"
    and s: "s' = ?s\<lparr>positionMap := labelsFor ?at characters rest',
              repeatPosition := (case map ?at (drop 38 rest') of [] \<Rightarrow> None | r # _ \<Rightarrow> Some r),
              matchIds := fst (markReply h)\<rparr>"
    and l: "log = (readCalls @ (if falsy charArg then [CallAsyncGetchar] else [])) @ moved
        @ renderCalls (labelsFor ?at characters rest') currpos (map ?at (drop 38 rest'))
        @ getCharacter_start ?s"
    by blast
  have "rest' = rest"
  proof (cases "jumpOnTrigger s0")
    case True
    with j have "jumpToFirst True h (screenPos isFwd cursor startline (fst sub)) positions
          = Some (moved, currpos, rest')"
      by (simp add: prompted_fields assms(4))
    from jumpToFirst_True[OF this] True show ?thesis by (auto simp: assms(5))
  next
    case False
    with j have "jumpToFirst False h (screenPos isFwd cursor startline (fst sub)) positions
          = Some (moved, currpos, rest')"
      by (simp add: prompted_fields assms(4))
    from jumpToFirst_False[OF this] False show ?thesis by (auto simp: assms(5))
  qed
  with ne inr s mr show "rest \<noteq> []" "\<forall>p \<in> set rest. pos_line p < length (fst sub)"
    "s' = ?s\<lparr>positionMap := labelsFor ?at characters rest,
              repeatPosition := (case map ?at (drop 38 rest) of [] \<Rightarrow> None | r # _ \<Rightarrow> Some r),
              matchIds := fst (markReply h)\<rparr>"
    "snd (markReply h) = None"
    by simp_all
  have "getCharacter_start ?s = getCharacter_start s0"
    by (simp add: getCharacter_start_def prompted_fields)
  with l show "\<exists>pre. log = pre @ getCharacter_start s0"
    by (metis append.assoc)
qed

lemma jump_run:
  assumes "readReply h = Inr (cursor, startline, currline, lines0)"
    and "sub = subRange isFwd cursor startline currline lines0"
    and "found = finder (searchCharacter h charArg) (fst sub) (wordJump m) (snd sub)"
    and "found \<noteq> []"
    and "jumpToFirst (jumpOnTrigger m) h (screenPos isFwd cursor startline (fst sub))
           (ordered isFwd found) = Some (moved, currpos, rest)"
    and "\<forall>p \<in> set rest. pos_line p < length (fst sub)"
    and "rest \<noteq> []"
    and "snd (markReply h) = None"
  shows "jump finder h m isFwd charArg =
     ((prompted h (m\<lparr>positionMap := []\<rparr>) isFwd charArg)
        \<lparr>positionMap := labelsFor (screenAt isFwd cursor startline (fst sub)) characters rest,
         repeatPosition := (case map (screenAt isFwd cursor startline (fst sub)) (drop 38 rest) of
                              [] \<Rightarrow> None | r # _ \<Rightarrow> Some r),
         matchIds := fst (markReply h)\<rparr>,
      readCalls @ (if falsy charArg then [CallAsyncGetchar] else []) @ moved
      @ renderCalls (labelsFor (screenAt isFwd cursor startline (fst sub)) characters rest) currpos
          (map (screenAt isFwd cursor startline (fst sub)) (drop 38 rest))
      @ getCharacter_start m,
      Awaiting)"
proof -
  let ?s = "prompted h (m\<lparr>positionMap := []\<rparr>) isFwd charArg"
  have j: "jumpToFirst (jumpOnTrigger ?s) h (screenPos isFwd cursor startline (fst sub))
           (ordered isFwd found) = Some (moved, currpos, rest)"
    using assms(5) by (simp add: prompted_fields)
  have st: "getCharacter_start ?s = getCharacter_start m"
    by (simp add: getCharacter_start_def prompted_fields)
  show ?thesis
    unfolding jump_Inr[OF assms(1)] assms(2)[symmetric] assms(3)[symmetric]
      labelAndShow_run[OF assms(4) j assms(6)] st
    using assms(7) assms(8) by simp
qed

lemma rowLine_prefix: "k \<le> 60 \<Longrightarrow> byteLength (take k rowLine) = k"
proof (induction k)
  case 0
  then show ?case by simp
next
  case (Suc k)
  then have "take (Suc k) rowLine = (of_char CHR ''x'') # take k rowLine"
    by (simp add: rowLine_def str_def take_Suc_conv_app_nth replicate_append_same min_def)
  moreover have "\<not> highSurrogate (of_char CHR ''x'')" "unitBytes (of_char CHR ''x'') = 1"
    by (simp_all add: highSurrogate_def unitBytes_def)
  ultimately show ?case using Suc
    by (cases "take k rowLine") (simp_all add: )
qed


lemma row_sub: "subRange False (0, 45) 1 rowLine [rowLine] = ([take 45 rowLine], 0)"
  by (simp add: subRange_def slice_def relIndex_def rowLine_def str_def)

lemma row_found:
  "rowFinder c [take 45 rowLine] wj 0 = map (\<lambda>j. \<lparr>pos_line = 0, pos_character = j\<rparr>) [0..<45]"
  by (simp add: rowFinder_def rowLine_def str_def)

lemma row_at:
  "k \<le> 45 \<Longrightarrow> screenAt False (0, 45) 1 [take 45 rowLine] \<lparr>pos_line = 0, pos_character = k\<rparr>
     = (1, int k + 1)"
proof -
  assume k: "k \<le> 45"
  then have "slice (take 45 rowLine) 0 (int k) = take k rowLine"
    by (simp add: slice_def relIndex_def rowLine_def str_def min_def)
  with k show ?thesis
    by (simp add: screenAt_def byteIndex_def rowLine_prefix)
qed

lemma rev_row: "rev (map f [0..<Suc n]) = f n # map (\<lambda>j. f (n - Suc j)) [0..<n]"
proof (rule nth_equalityI)
  show "length (rev (map f [0..<Suc n])) = length (f n # map (\<lambda>j. f (n - Suc j)) [0..<n])"
    by simp
next
  fix i
  assume "i < length (rev (map f [0..<Suc n]))"
  then have i: "i < Suc n" by simp
  then have "rev (map f [0..<Suc n]) ! i = f (n - i)"
    by (simp add: rev_nth del: upt_Suc)
  moreover have "(f n # map (\<lambda>j. f (n - Suc j)) [0..<n]) ! i = f (n - i)"
    using i by (cases i) simp_all
  ultimately show "rev (map f [0..<Suc n]) ! i = (f n # map (\<lambda>j. f (n - Suc j)) [0..<n]) ! i"
    by simp
qed

lemma row_rev:
  "rev (map (\<lambda>j. \<lparr>pos_line = 0, pos_character = j\<rparr>) [0..<45])
     = \<lparr>pos_line = 0, pos_character = 44\<rparr>
       # map (\<lambda>j. \<lparr>pos_line = 0, pos_character = 43 - j\<rparr>) [0..<44]"
  using rev_row[of "\<lambda>j. \<lparr>pos_line = 0, pos_character = j\<rparr>" 44] by (simp del: upt_Suc)

lemma row_jump:
  "\<exists>log. jump rowFinder rowHost rowManager False (Some (str ''x'')) =
     (rowManager
        \<lparr>positionMap := labelsFor (screenAt False (0, 45) 1 [take 45 rowLine]) characters
                          (map (\<lambda>j. \<lparr>pos_line = 0, pos_character = 43 - j\<rparr>) [0..<44]),
         repeatPosition := Some (1, 6),
         matchIds := fst (markReply rowHost)\<rparr>,
      log, Awaiting)"
proof -
  let ?f = "\<lambda>j. \<lparr>pos_line = 0, pos_character = j\<rparr>"
  let ?found = "map ?f [0..<45]"
  let ?rest = "map (\<lambda>j. \<lparr>pos_line = 0, pos_character = 43 - j\<rparr>) [0..<44]"
  let ?at = "screenAt False (0, 45) 1 [take 45 rowLine]"
  have a1: "readReply rowHost = Inr ((0, 45), 1, rowLine, [rowLine])"
    by (simp add: rowHost_def)
  have a2: "([take 45 rowLine], 0) = subRange False (0, 45) 1 rowLine [rowLine]"
    by (simp add: row_sub)
  have a3: "?found = rowFinder (searchCharacter rowHost (Some (str ''x'')))
              (fst ([take 45 rowLine], 0::int)) (wordJump rowManager) (snd ([take 45 rowLine], 0::int))"
    by (simp add: row_found)
  have a4: "?found \<noteq> []" by simp
  have hd: "rev ?found = ?f 44 # ?rest"
    by (rule row_rev)
  have a5: "jumpToFirst (jumpOnTrigger rowManager) rowHost
              (screenPos False (0, 45) 1 (fst ([take 45 rowLine], 0::int))) (ordered False ?found)
            = Some ([CallCursor 1 45], (1, 45), ?rest)"
    using row_at[of 44]
    by (simp add: jumpToFirst_def ordered_def hd rowManager_def newManager_def screenPos_def
        del: upt_Suc)
  have a6: "\<forall>p \<in> set ?rest. pos_line p < length (fst ([take 45 rowLine], 0::int))"
    by simp
  have a7: "?rest \<noteq> []" by simp
  have a8: "snd (markReply rowHost) = None" by (simp add: rowHost_def)
  have d: "drop 38 ?rest = ?f 5 # drop 39 ?rest"
    using Cons_nth_drop_Suc[of 38 ?rest, symmetric] by simp
  have rp: "(case map ?at (drop 38 ?rest) of [] \<Rightarrow> None | r # _ \<Rightarrow> Some r) = Some (1, 6)"
    using row_at[of 5] by (simp add: d del: upt_Suc)
  have pr: "prompted rowHost (rowManager\<lparr>positionMap := []\<rparr>) False (Some (str ''x''))
              = rowManager"
    by (simp add: prompted_def falsy_def str_def rowManager_def newManager_def)
  note r = jump_run[where finder = rowFinder and charArg = "Some (str ''x'')" and isFwd = False
        and m = rowManager, OF a1 a2 a3 a4 a5 a6 a7 a8, unfolded fst_conv snd_conv rp pr]
  show ?thesis using r by blast
qed

lemma fox_jump:
  "jump foxFinder foxHost (newManager t True w) True None =
     ((newManager t True w)
        \<lparr>matchIds := [None, Some 4, Some 5, Some 6],
         positionMap := [(str ''a'', \<lparr>ch_position = (2, 2), ch_character = str ''a''\<rparr>),
                         (str ''b'', \<lparr>ch_position = (3, 2), ch_character = str ''b''\<rparr>)],
         character := Some (str ''o'')\<rparr>,
      [PauseNotification, CallCocUtilCursor, CallLineW0, CallGetlineDot, CallEvalVisibleLines,
       CommandSetConceallevel2, ResumeNotification, CallAsyncGetchar, CallCursor 1 2,
       PauseNotification, CommandDoautocmdEnter, CallMatchaddposConceal 2 2 (str ''a''),
       CallMatchaddposConceal 3 2 (str ''b''), CallMatchaddposCursor 1 2, ResumeNotification,
       CallAsyncGetchar, SetTimeout (timerDelay t)],
      Awaiting)"
proof -
  let ?lines = "[str ''fox'', str ''box'', str ''cow'']"
  let ?first = "\<lparr>pos_line = 0, pos_character = 1\<rparr>"
  let ?rest = "[\<lparr>pos_line = 1, pos_character = 1\<rparr>, \<lparr>pos_line = 2, pos_character = 1\<rparr>]"
  let ?m = "newManager t True w"
  have a1: "readReply foxHost = Inr ((0, 0), 1, str ''fox'', ?lines)"
    by (simp add: foxHost_def)
  have a2: "(?lines, 1) = subRange True (0, 0) 1 (str ''fox'') ?lines"
    by (simp add: subRange_def sliceFrom_def relIndex_def)
  have a3: "?first # ?rest = foxFinder (searchCharacter foxHost None) (fst (?lines, 1::int))
              (wordJump ?m) (snd (?lines, 1::int))"
    by (simp add: foxFinder_def)
  have a4: "?first # ?rest \<noteq> []" by simp
  have a5: "jumpToFirst (jumpOnTrigger ?m) foxHost (screenPos True (0, 0) 1 (fst (?lines, 1::int)))
              (ordered True (?first # ?rest)) = Some ([CallCursor 1 2], (1, 2), ?rest)"
    by (simp add: jumpToFirst_def ordered_def newManager_def screenPos_def screenAt_def col2)
  have a6: "\<forall>p \<in> set ?rest. pos_line p < length (fst (?lines, 1::int))" by simp
  have a7: "?rest \<noteq> []" by simp
  have a8: "snd (markReply foxHost) = None" by (simp add: foxHost_def)
  have lab: "labelsFor (screenAt True (0, 0) 1 ?lines) characters ?rest =
         [(str ''a'', \<lparr>ch_position = (2, 2), ch_character = str ''a''\<rparr>),
          (str ''b'', \<lparr>ch_position = (3, 2), ch_character = str ''b''\<rparr>)]"
    by (simp add: labelsFor_def characters_def screenAt_def col2)
  note r = jump_run[where finder = foxFinder and charArg = None and isFwd = True
        and m = ?m, OF a1 a2 a3 a4 a5 a6 a7 a8, unfolded fst_conv snd_conv lab]
  show ?thesis
    unfolding r
    by (simp add: prompted_def falsy_def newManager_def foxHost_def renderCalls_def readCalls_def
        getCharacter_start_def)
qed

lemma jump_Awaiting_Inr:
  assumes "jump finder h s0 isFwd charArg = (s, log, Awaiting)"
  shows "\<exists>cursor startline currline lines0. readReply h = Inr (cursor, startline, currline, lines0)"
proof (cases "readReply h")
  case (Inl e)
  with assms show ?thesis by (simp add: jump_Inl)
next
  case (Inr r)
  then show ?thesis by (cases r) auto
qed

lemma labelsFor_nonempty: "ps \<noteq> [] \<Longrightarrow> labelsFor at characters ps \<noteq> []"
  by (cases ps) (simp_all add: labelsFor_def characters_def)

lemma jump_Awaiting_state:
  assumes "jump finder h s0 isFwd charArg = (s, log, Awaiting)"
  shows "matchIds s = fst (markReply h)" and "positionMap s \<noteq> []" and "timeout s = timeout s0"
proof -
  from jump_Awaiting_Inr[OF assms] obtain cursor startline currline lines0
    where rr: "readReply h = Inr (cursor, startline, currline, lines0)" by blast
  note a = jump_Awaiting[OF assms rr refl refl refl]
  from a(3) show "matchIds s = fst (markReply h)" by simp
  from a(3) a(1) labelsFor_nonempty show "positionMap s \<noteq> []" by simp
  from a(3) show "timeout s = timeout s0" by (simp add: prompted_fields)
qed




lemma cancel_fst: "fst (cancel s) = s\<lparr>matchIds := []\<rparr>"
  by (simp add: cancel_def)


lemma more_key_reenters:
  "repeatPosition s = Some p \<Longrightarrow>
     getCharacter s (KeyFirst (str '';'')) =
       (s\<lparr>matchIds := []\<rparr>, snd (cancel s) @ [CallCursor (fst p) (snd p)],
        Some (isForward s, character s))"
  by (simp add: getCharacter_def getCharacter_resume_def getCharacter_timer_def cancel_fst Let_def)

lemma row_opposite:
  "repeatOpposite rowFinder rowHost rowManager =
     jump rowFinder rowHost rowManager False (Some (str ''x''))"
  by (simp add: repeatOpposite_def rowManager_def newManager_def)

lemma lineMatches_iff:
  "p \<in> set (lineMatches ws c wj off i l) \<longleftrightarrow>
     pos_line p = i \<and> pos_character p < length l \<and> (0 < i \<or> off \<le> int (pos_character p))
     \<and> occursAt c l (pos_character p) \<and> (wj \<longrightarrow> ws l (pos_character p))"
  by (cases p) (auto simp: lineMatches_def)

lemma later_lines:
  assumes "p \<in> set (concat (map (\<lambda>(i, l). lineMatches ws c wj off i l) (enumerate n ls)))"
  shows "n \<le> pos_line p"
proof -
  from assms obtain i l where il: "(i, l) \<in> set (enumerate n ls)"
    and p: "p \<in> set (lineMatches ws c wj off i l)"
    by auto
  from il have "n \<le> i" by (simp add: in_set_enumerate_eq)
  with p show ?thesis by (simp add: lineMatches_iff)
qed

lemma getPositions_Cons:
  "getPositions ws c (l # ls) wj off =
     lineMatches ws c wj off 0 l
     @ concat (map (\<lambda>(i, l). lineMatches ws c wj off i l) (enumerate (Suc 0) ls))"
  by (simp add: getPositions_def)

lemma getPositions_first_line:
  "\<lparr>pos_line = 0, pos_character = j\<rparr> \<in> set (getPositions ws c (l # ls) wj off) \<longleftrightarrow>
     j < length l \<and> off \<le> int j \<and> occursAt c l j \<and> (wj \<longrightarrow> ws l j)"
proof -
  let ?p = "\<lparr>pos_line = 0, pos_character = j\<rparr>"
  have "?p \<notin> set (concat (map (\<lambda>(i, l). lineMatches ws c wj off i l) (enumerate (Suc 0) ls)))"
    using later_lines[of ?p ws c wj off "Suc 0" ls] by auto
  then have "?p \<in> set (getPositions ws c (l # ls) wj off)
               \<longleftrightarrow> ?p \<in> set (lineMatches ws c wj off 0 l)"
    by (metis getPositions_Cons Un_iff set_append)
  then show ?thesis by (simp add: lineMatches_iff)
qed

lemma getPositions_offset:
  "p \<in> set (getPositions ws c ls wj off) \<Longrightarrow> pos_line p = 0 \<Longrightarrow> off \<le> int (pos_character p)"
proof (cases ls)
  case Nil
  assume "p \<in> set (getPositions ws c ls wj off)"
  with Nil show ?thesis by (simp add: getPositions_def)
next
  case (Cons l rest)
  assume "p \<in> set (getPositions ws c ls wj off)" and "pos_line p = 0"
  with Cons getPositions_first_line[of "pos_character p" ws c l rest wj off]
  show ?thesis by (cases p) auto
qed


lemma getPositions_honours: "honoursOffset (getPositions ws)"
  using getPositions_offset by (auto simp: honoursOffset_def)

lemma xx_positions:
  "getPositions (\<lambda>l j. True) (str ''x'') [str ''xx''] wj 1 = [\<lparr>pos_line = 0, pos_character = 1\<rparr>]"
  by (simp add: getPositions_def lineMatches_def occursAt_def str_def)

lemma xx_sub: "subRange True (0, 0) 1 (str ''xx'') [str ''xx''] = ([str ''xx''], 1)"
  by (simp add: subRange_def sliceFrom_def relIndex_def)

lemma jump_table:
  assumes "readReply h = Inr (cursor, startline, currline, lines0)"
    and "sub = subRange isFwd cursor startline currline lines0"
    and "found = finder (searchCharacter h charArg) (fst sub) (wordJump m) (snd sub)"
    and "found \<noteq> []"
    and "\<forall>p \<in> set found. pos_line p < length (fst sub)"
  shows "positionMap (fst (jump finder h m isFwd charArg)) =
           labelsFor (screenAt isFwd cursor startline (fst sub)) characters
             (if jumpOnTrigger m then tl (ordered isFwd found) else ordered isFwd found)"
proof -
  let ?s = "prompted h (m\<lparr>positionMap := []\<rparr>) isFwd charArg"
  let ?scr = "screenPos isFwd cursor startline (fst sub)"
  let ?at = "screenAt isFwd cursor startline (fst sub)"
  let ?log = "readCalls @ (if falsy charArg then [CallAsyncGetchar] else [])"
  have js: "jump finder h m isFwd charArg = labelAndShow h ?s isFwd cursor startline (fst sub) found ?log"
    using jump_Inr[OF assms(1), of finder m isFwd charArg] by (simp add: assms(2) assms(3))
  have same: "set (ordered isFwd found) = set found" by (simp add: ordered_def)
  have nonempty: "ordered isFwd found \<noteq> []" using assms(4) by (simp add: ordered_def)
  show ?thesis
  proof (cases "jumpOnTrigger m")
    case True
    from nonempty obtain first rest where fr: "ordered isFwd found = first # rest"
      by (cases "ordered isFwd found") auto
    with same assms(5) have f: "?scr first = Some (?at first)"
      and r: "\<forall>p \<in> set rest. pos_line p < length (fst sub)"
      by (auto simp: screenPos_def)
    have j: "jumpToFirst (jumpOnTrigger ?s) h ?scr (ordered isFwd found)
               = Some ([CallCursor (fst (?at first)) (snd (?at first))], ?at first, rest)"
      using True by (simp add: prompted_fields fr jumpToFirst_def f)
    show ?thesis
      unfolding js labelAndShow_run[OF assms(4) j r]
      using True by (simp add: fr prompted_fields labelsFor_def split: option.splits)
  next
    case False
    have j: "jumpToFirst (jumpOnTrigger ?s) h ?scr (ordered isFwd found)
               = Some ([CallGetpos], getposReply h, ordered isFwd found)"
      using False by (simp add: prompted_fields jumpToFirst_def)
    have r: "\<forall>p \<in> set (ordered isFwd found). pos_line p < length (fst sub)"
      using same assms(5) by simp
    show ?thesis
      unfolding js labelAndShow_run[OF assms(4) j r]
      using False nonempty by (simp add: split: option.splits)
  qed
qed

lemma slice_prefix_Suc:
  assumes "0 \<le> d" and "d < int (length xs)"
  shows "slice xs 0 (d + 1) = take (Suc (nat d)) xs"
proof -
  from assms(1) have n: "nat (d + 1) = Suc (nat d)" by simp
  from assms have "Suc (nat d) \<le> length xs" by simp
  then show ?thesis
    using assms(1) by (simp add: slice_def relIndex_def n min_def)
qed

lemma update_last_of_prefix:
  assumes "k < length xs"
  shows "(take (Suc k) xs)[k := v] = take k xs @ [v]"
proof -
  have l: "length (take k xs) = k" using assms by simp
  have "(take k xs @ [xs ! k])[k := v] = take k xs @ [v]"
    by (simp add: list_update_append l del: length_take)
  then show ?thesis using assms by (simp add: take_Suc_conv_app_nth)
qed

lemma sorted_wrt_last:
  assumes "sorted_wrt P xs" and "xs \<noteq> []"
  shows "\<forall>q \<in> set (butlast xs). P q (last xs)"
proof -
  from assms(2) have "xs = butlast xs @ [last xs]" by simp
  with assms(1) have "sorted_wrt P (butlast xs @ [last xs])" by simp
  then show ?thesis by (simp add: sorted_wrt_append)
qed

lemma six_sub:
  "subRange False (5, 10) 1 (str ''abcxdefghijkl'') sixLines =
     ([str ''abcdefghijkl'', str ''abcdefghijkl'', str ''axbcdefghijk'',
       str ''abcdefghijkl'', str ''abcdefghijkl'', str ''abcxdefghi''], 0)"
  by (simp add: subRange_def slice_def relIndex_def sixLines_def str_def)

lemma six_at:
  "screenAt False (5, 10) 1
     [str ''abcdefghijkl'', str ''abcdefghijkl'', str ''axbcdefghijk'',
      str ''abcdefghijkl'', str ''abcdefghijkl'', str ''abcxdefghi'']
     \<lparr>pos_line = 5, pos_character = 3\<rparr> = (6, 4)"
  "screenAt False (5, 10) 1
     [str ''abcdefghijkl'', str ''abcdefghijkl'', str ''axbcdefghijk'',
      str ''abcdefghijkl'', str ''abcdefghijkl'', str ''abcxdefghi'']
     \<lparr>pos_line = 2, pos_character = 1\<rparr> = (3, 2)"
  by (simp_all add: screenAt_def byteIndex_def slice_def relIndex_def str_def unitBytes_def
      highSurrogate_def)


lemma stored_direction:
  assumes "jump finder h s0 isFwd charArg = (s, log, Awaiting)"
  shows "isForward s = (if falsy charArg then isFwd else isForward s0)"
proof -
  from jump_Awaiting_Inr[OF assms] obtain cursor startline currline lines0
    where rr: "readReply h = Inr (cursor, startline, currline, lines0)" by blast
  note a = jump_Awaiting[OF assms rr refl refl refl]
  from a(3) show ?thesis by (simp add: prompted_def)
qed

lemma stored_direction_by_entry:
  "forward finder h s0 = (s, log, Awaiting) \<Longrightarrow> isForward s = True"
  "backward finder h s0 = (s, log, Awaiting) \<Longrightarrow> isForward s = False"
  "repeat finder h s0 = (s, log, Awaiting) \<Longrightarrow> isForward s = isForward s0"
  "repeatOpposite finder h s0 = (s, log, Awaiting) \<Longrightarrow> \<not> falsy (character s0) \<Longrightarrow>
     isForward s = isForward s0"
  using stored_direction[of finder h s0 _ _ s log]
  by (auto simp: forward_def backward_def repeat_def repeatOpposite_def falsy_def)

lemma slice_take: "slice xs 0 (int n) = take n xs"
  by (cases "n \<le> length xs") (simp_all add: slice_def relIndex_def min_def)

lemma byteIndex_take: "byteIndex content (int n) = byteLength (take n content)"
  by (simp add: byteIndex_def slice_take)

lemma screenAt_explicit:
  "screenAt isFwd cursor startline lines pos =
     (if isFwd then fst cursor + 1 + int (pos_line pos) else startline + int (pos_line pos),
      int (byteLength (take (pos_character pos) (lines ! pos_line pos))) + 1)"
  by (simp add: screenAt_def byteIndex_take)

lemma accent_sub:
  "subRange True (11, 0) 10 (accentLine) accentLines =
     ([accentLine, clefLine], 1)"
  by (simp add: subRange_def sliceFrom_def relIndex_def accentLines_def)

lemma accent_sub_back:
  "subRange False (11, 3) 10 (accentLine) accentLines =
     ([str ''one'', str ''two'', take 3 accentLine], 0)"
  by (simp add: subRange_def slice_def relIndex_def accentLines_def accentLine_def str_def)

lemma accent_bytes:
  "byteLength (take 3 accentLine) = 4"
  "byteLength (take 3 clefLine) = 6"
  "byteLength (take 2 (str ''two'')) = 2"
  "byteLength (take 0 (str ''one'')) = 0"
  by (simp_all add: accentLine_def clefLine_def str_def unitBytes_def highSurrogate_def
      lowSurrogate_def)



lemma late_key_after_timer:
  "getCharacter (fst (jump foxFinder foxHost (newManager 1000 True True) True None))
     (TimerFirst (str ''a''))
   = ((newManager 1000 True True)
        \<lparr>matchIds := [],
         positionMap := [(str ''a'', \<lparr>ch_position = (2, 2), ch_character = str ''a''\<rparr>),
                         (str ''b'', \<lparr>ch_position = (3, 2), ch_character = str ''b''\<rparr>)],
         character := Some (str ''o'')\<rparr>,
      [CommandFeedkeysEsc, PauseNotification, SetVarActivated0, CommandDoautocmdLeave,
       CallClearmatches [None, Some 4, Some 5, Some 6], ResumeNotification, CallCursor 2 2],
      None)"
  unfolding fox_jump fst_conv
  by (simp add: getCharacter_def getCharacter_timer_def getCharacter_resume_def cancel_def
      newManager_def Let_def str_def)

section \<open>Properties\<close>

text \<open>
  C9.  Invoking \<open>cancel\<close> twice in a row is invoking it once: whatever the manager
  holds (also no session at all), the second invocation changes nothing and issues
  no request, so no second clear.  Nothing in \<open>cancel\<close> raises.
\<close>

theorem cancel_idempotent:
  "cancel (fst (cancel s)) = (fst (cancel s), [])"
  by (simp add: cancel_def)



text \<open>
  C10.  The repeat glyph \<open>;\<close> is not a symbol of the alphabet, and whatever \<open>jump\<close>
  is run on and however it ends, \<open>positionMap\<close> has no entry under \<open>;\<close> afterwards:
  a key read is never both the repeat glyph and a key of the table.
\<close>

theorem repeat_glyph_not_a_label:
  "str '';'' \<notin> set characters
   \<and> map_of (positionMap (fst (jump finder h s0 isFwd charArg))) (str '';'') = None"
proof -
  have a: "str '';'' \<notin> set characters"
    by (simp add: characters_def str_def)
  with jump_keys[of finder h s0 isFwd charArg]
  have "str '';'' \<notin> fst ` set (positionMap (fst (jump finder h s0 isFwd charArg)))"
    by blast
  then have "map_of (positionMap (fst (jump finder h s0 isFwd charArg))) (str '';'') = None"
    by (simp add: map_of_eq_None_iff)
  with a show ?thesis by simp
qed

text \<open>
  C7.  With \<open>jumpOnTrigger\<close> set, whenever the candidates in order are \<open>first # rest\<close>
  (their lines among the lines scanned), \<open>jump\<close> sends the cursor to \<open>first\<close> right
  after the first batch and the prompt, before any marker is requested.  The target is
  written out: the line is the cursor's line (counted from 1) plus the line offset of
  \<open>first\<close> on a forward jump and the window's top line plus that offset on a backward
  jump, which is the line of the editor that holds \<open>first\<close>; the column is one more than
  the number of UTF-8 bytes before \<open>first\<close> in that line.  The table \<open>jump\<close> leaves pairs
  the alphabet with \<open>rest\<close> only: \<open>first\<close> is not among the candidates that are labelled.
  With \<open>rest\<close> empty nothing more is requested.
\<close>

theorem jumpOnTrigger_first_unlabelled:
  assumes "readReply h = Inr (cursor, startline, currline, lines0)"
    and "jumpOnTrigger s0"
    and "sub = subRange isFwd cursor startline currline lines0"
    and "ordered isFwd (finder (searchCharacter h charArg) (fst sub) (wordJump s0) (snd sub))
           = first # rest"
    and "\<forall>p \<in> set (first # rest). pos_line p < length (fst sub)"
  shows "\<exists>s' later out.
      jump finder h s0 isFwd charArg =
        (s',
         readCalls @ (if falsy charArg then [CallAsyncGetchar] else [])
         @ CallCursor
             (if isFwd then fst cursor + 1 + int (pos_line first)
              else startline + int (pos_line first))
             (int (byteLength (take (pos_character first) (fst sub ! pos_line first))) + 1)
         # later,
         out)
    \<and> out = (if rest \<noteq> [] \<and> snd (markReply h) = None then Awaiting else Returned)
    \<and> positionMap s' = labelsFor (screenAt isFwd cursor startline (fst sub)) characters rest
    \<and> later =
        (if rest = [] then []
         else renderCalls (labelsFor (screenAt isFwd cursor startline (fst sub)) characters rest)
                (if isFwd then fst cursor + 1 + int (pos_line first)
                 else startline + int (pos_line first),
                 int (byteLength (take (pos_character first) (fst sub ! pos_line first))) + 1)
                (map (screenAt isFwd cursor startline (fst sub)) (drop 38 rest))
              @ (if snd (markReply h) = None then getCharacter_start s0 else []))"
proof -
  let ?at = "screenAt isFwd cursor startline (fst sub)"
  let ?scr = "screenPos isFwd cursor startline (fst sub)"
  let ?s = "prompted h (s0\<lparr>positionMap := []\<rparr>) isFwd charArg"
  let ?found = "finder (searchCharacter h charArg) (fst sub) (wordJump s0) (snd sub)"
  let ?target = "(if isFwd then fst cursor + 1 + int (pos_line first)
                  else startline + int (pos_line first),
                 int (byteLength (take (pos_character first) (fst sub ! pos_line first))) + 1)"
  have ne: "?found \<noteq> []" using assms(4) by (auto simp: ordered_def split: if_splits)
  have jt: "jumpOnTrigger ?s" using assms(2) by (simp add: prompted_fields)
  have tg: "?at first = ?target" by (rule screenAt_explicit)
  have first: "?scr first = Some ?target"
    using assms(5) by (simp add: screenPos_def tg)
  have j: "jumpToFirst (jumpOnTrigger ?s) h ?scr (ordered isFwd ?found)
             = Some ([CallCursor (fst ?target) (snd ?target)], ?target, rest)"
    by (simp only: jt assms(4) jumpToFirst_def first if_True list.case option.case)
  have r: "\<forall>p \<in> set rest. pos_line p < length (fst sub)" using assms(5) by simp
  have js: "jump finder h s0 isFwd charArg =
       labelAndShow h ?s isFwd cursor startline (fst sub) ?found
         (readCalls @ (if falsy charArg then [CallAsyncGetchar] else []))"
    using jump_Inr[OF assms(1), of finder s0 isFwd charArg] assms(3) by simp
  have st: "getCharacter_start ?s = getCharacter_start s0"
    by (simp add: getCharacter_start_def prompted_fields)
  show ?thesis
    unfolding js labelAndShow_run[OF ne j r] st
    by (cases "snd (markReply h)") (simp_all add: prompted_fields labelsFor_def)
qed

text \<open>
  The theorem at three inputs: the jump on \<open>fox\<close>, \<open>box\<close>, \<open>cow\<close>; a forward jump in the
  window that starts at line 10, from line 12, where two bytes of U+00E9 come before
  the first \<open>o\<close> (cursor to line 12, column 5) and six bytes before the second (label
  at line 13, column 7); and a backward jump in the same window (cursor to line 11,
  column 3, label at line 10, column 1).
\<close>

theorem jumpOnTrigger_first_unlabelled_witness:
  "(\<exists>s' later.
     jump foxFinder foxHost (newManager 1000 True True) True None =
       (s', readCalls @ [CallAsyncGetchar] @ CallCursor 1 2 # later, Awaiting)
     \<and> positionMap s' =
         [(str ''a'', \<lparr>ch_position = (2, 2), ch_character = str ''a''\<rparr>),
          (str ''b'', \<lparr>ch_position = (3, 2), ch_character = str ''b''\<rparr>)])
   \<and> (\<exists>s' later.
     jump accentFinder accentHost (newManager 1000 True True) True None =
       (s', readCalls @ [CallAsyncGetchar] @ CallCursor 12 5 # later, Awaiting)
     \<and> positionMap s' =
         [(str ''a'', \<lparr>ch_position = (13, 7), ch_character = str ''a''\<rparr>)])
   \<and> (\<exists>s' later.
     jump accentFinderBack accentHostBack (newManager 1000 True True) False None =
       (s', readCalls @ [CallAsyncGetchar] @ CallCursor 11 3 # later, Awaiting)
     \<and> positionMap s' =
         [(str ''a'', \<lparr>ch_position = (10, 1), ch_character = str ''a''\<rparr>)])"
proof -
  have jt: "jumpOnTrigger (newManager 1000 True True)"
    by (simp add: newManager_def)
  have fox: "\<exists>s' later.
     jump foxFinder foxHost (newManager 1000 True True) True None =
       (s', readCalls @ [CallAsyncGetchar] @ CallCursor 1 2 # later, Awaiting)
     \<and> positionMap s' =
         [(str ''a'', \<lparr>ch_position = (2, 2), ch_character = str ''a''\<rparr>),
          (str ''b'', \<lparr>ch_position = (3, 2), ch_character = str ''b''\<rparr>)]"
  proof -
    let ?lines = "[str ''fox'', str ''box'', str ''cow'']"
    let ?sub = "(?lines, 1::int)"
    let ?first = "\<lparr>pos_line = 0, pos_character = 1\<rparr>"
    let ?rest = "[\<lparr>pos_line = 1, pos_character = 1\<rparr>, \<lparr>pos_line = 2, pos_character = 1\<rparr>]"
    have a1: "readReply foxHost = Inr ((0, 0), 1, str ''fox'', ?lines)"
      by (simp add: foxHost_def)
    have a3: "?sub = subRange True (0, 0) 1 (str ''fox'') ?lines"
      by (simp add: subRange_def sliceFrom_def relIndex_def)
    have a4: "ordered True (foxFinder (searchCharacter foxHost None) (fst ?sub)
                (wordJump (newManager 1000 True True)) (snd ?sub)) = ?first # ?rest"
      by (simp add: ordered_def foxFinder_def)
    have a5: "\<forall>p \<in> set (?first # ?rest). pos_line p < length (fst ?sub)"
      by simp
    have tg: "int (byteLength (take (pos_character ?first) (fst ?sub ! pos_line ?first))) + 1 = 2"
      by (simp add: str_def unitBytes_def)
    have lab: "labelsFor (screenAt True (0, 0) 1 (fst ?sub)) characters ?rest =
           [(str ''a'', \<lparr>ch_position = (2, 2), ch_character = str ''a''\<rparr>),
            (str ''b'', \<lparr>ch_position = (3, 2), ch_character = str ''b''\<rparr>)]"
      by (simp add: labelsFor_def characters_def screenAt_def col2)
    have mr: "snd (markReply foxHost) = None" by (simp add: foxHost_def)
    from jumpOnTrigger_first_unlabelled[where finder = foxFinder and charArg = None
        and isFwd = True and sub = "?sub", OF a1 jt a3 a4 a5, unfolded tg lab]
    obtain s' later out where
      j: "jump foxFinder foxHost (newManager 1000 True True) True None =
            (s', readCalls @ (if falsy None then [CallAsyncGetchar] else [])
                 @ CallCursor (if True then fst ((0::int), (0::int)) + 1 + int (pos_line ?first)
                               else 1 + int (pos_line ?first)) 2 # later, out)"
      and o: "out = (if ?rest \<noteq> [] \<and> snd (markReply foxHost) = None then Awaiting else Returned)"
      and pm: "positionMap s' =
           [(str ''a'', \<lparr>ch_position = (2, 2), ch_character = str ''a''\<rparr>),
            (str ''b'', \<lparr>ch_position = (3, 2), ch_character = str ''b''\<rparr>)]"
      by blast
    from o mr have "out = Awaiting" by simp
    with j have "jump foxFinder foxHost (newManager 1000 True True) True None =
         (s', readCalls @ [CallAsyncGetchar] @ CallCursor 1 2 # later, Awaiting)"
      by (simp add: falsy_def)
    with pm show ?thesis by blast
  qed
  have accent: "\<exists>s' later.
     jump accentFinder accentHost (newManager 1000 True True) True None =
       (s', readCalls @ [CallAsyncGetchar] @ CallCursor 12 5 # later, Awaiting)
     \<and> positionMap s' =
         [(str ''a'', \<lparr>ch_position = (13, 7), ch_character = str ''a''\<rparr>)]"
  proof -
    let ?l2 = "accentLine"
    let ?l3 = "clefLine"
    let ?sub = "([?l2, ?l3], 1::int)"
    let ?first = "\<lparr>pos_line = 0, pos_character = 3\<rparr>"
    let ?rest = "[\<lparr>pos_line = 1, pos_character = 3\<rparr>]"
    have a1: "readReply accentHost = Inr ((11, 0), 10, ?l2, accentLines)"
      by (simp add: accentHost_def)
    have a3: "?sub = subRange True (11, 0) 10 ?l2 accentLines"
      by (simp add: accent_sub)
    have a4: "ordered True (accentFinder (searchCharacter accentHost None) (fst ?sub)
                (wordJump (newManager 1000 True True)) (snd ?sub)) = ?first # ?rest"
      by (simp add: ordered_def accentFinder_def)
    have a5: "\<forall>p \<in> set (?first # ?rest). pos_line p < length (fst ?sub)"
      by simp
    have tg: "int (byteLength (take (pos_character ?first) (fst ?sub ! pos_line ?first))) + 1 = 5"
      using accent_bytes(1) by simp
    have lab: "labelsFor (screenAt True (11, 0) 10 (fst ?sub)) characters ?rest =
           [(str ''a'', \<lparr>ch_position = (13, 7), ch_character = str ''a''\<rparr>)]"
      using accent_bytes(2) by (simp add: labelsFor_def characters_def screenAt_explicit)
    have mr: "snd (markReply accentHost) = None" by (simp add: accentHost_def)
    from jumpOnTrigger_first_unlabelled[where finder = accentFinder and charArg = None
        and isFwd = True and sub = "?sub", OF a1 jt a3 a4 a5, unfolded tg lab]
    obtain s' later out where
      j: "jump accentFinder accentHost (newManager 1000 True True) True None =
            (s', readCalls @ (if falsy None then [CallAsyncGetchar] else [])
                 @ CallCursor (if True then fst ((11::int), (0::int)) + 1 + int (pos_line ?first)
                               else 10 + int (pos_line ?first)) 5 # later, out)"
      and o: "out = (if ?rest \<noteq> [] \<and> snd (markReply accentHost) = None then Awaiting else Returned)"
      and pm: "positionMap s' =
           [(str ''a'', \<lparr>ch_position = (13, 7), ch_character = str ''a''\<rparr>)]"
      by blast
    from o mr have "out = Awaiting" by simp
    with j have "jump accentFinder accentHost (newManager 1000 True True) True None =
         (s', readCalls @ [CallAsyncGetchar] @ CallCursor 12 5 # later, Awaiting)"
      by (simp add: falsy_def)
    with pm show ?thesis by blast
  qed
  have bwd: "\<exists>s' later.
     jump accentFinderBack accentHostBack (newManager 1000 True True) False None =
       (s', readCalls @ [CallAsyncGetchar] @ CallCursor 11 3 # later, Awaiting)
     \<and> positionMap s' =
         [(str ''a'', \<lparr>ch_position = (10, 1), ch_character = str ''a''\<rparr>)]"
  proof -
    let ?l2 = "accentLine"
    let ?sub = "([str ''one'', str ''two'', take 3 accentLine], 0::int)"
    let ?first = "\<lparr>pos_line = 1, pos_character = 2\<rparr>"
    let ?rest = "[\<lparr>pos_line = 0, pos_character = 0\<rparr>]"
    have a1: "readReply accentHostBack = Inr ((11, 3), 10, ?l2, accentLines)"
      by (simp add: accentHostBack_def)
    have a3: "?sub = subRange False (11, 3) 10 ?l2 accentLines"
      by (simp add: accent_sub_back)
    have a4: "ordered False (accentFinderBack (searchCharacter accentHostBack None) (fst ?sub)
                (wordJump (newManager 1000 True True)) (snd ?sub)) = ?first # ?rest"
      by (simp add: ordered_def accentFinderBack_def)
    have a5: "\<forall>p \<in> set (?first # ?rest). pos_line p < length (fst ?sub)"
      by simp
    have tg: "int (byteLength (take (pos_character ?first) (fst ?sub ! pos_line ?first))) + 1 = 3"
      using accent_bytes(3) by simp
    have lab: "labelsFor (screenAt False (11, 3) 10 (fst ?sub)) characters ?rest =
           [(str ''a'', \<lparr>ch_position = (10, 1), ch_character = str ''a''\<rparr>)]"
      by (simp add: labelsFor_def characters_def screenAt_explicit)
    have mr: "snd (markReply accentHostBack) = None" by (simp add: accentHostBack_def)
    from jumpOnTrigger_first_unlabelled[where finder = accentFinderBack and charArg = None
        and isFwd = False and sub = "?sub", OF a1 jt a3 a4 a5, unfolded tg lab]
    obtain s' later out where
      j: "jump accentFinderBack accentHostBack (newManager 1000 True True) False None =
            (s', readCalls @ (if falsy None then [CallAsyncGetchar] else [])
                 @ CallCursor (if False then fst ((11::int), (3::int)) + 1 + int (pos_line ?first)
                               else 10 + int (pos_line ?first)) 3 # later, out)"
      and o: "out = (if ?rest \<noteq> [] \<and> snd (markReply accentHostBack) = None then Awaiting else Returned)"
      and pm: "positionMap s' =
           [(str ''a'', \<lparr>ch_position = (10, 1), ch_character = str ''a''\<rparr>)]"
      by blast
    from o mr have "out = Awaiting" by simp
    with j have "jump accentFinderBack accentHostBack (newManager 1000 True True) False None =
         (s', readCalls @ [CallAsyncGetchar] @ CallCursor 11 3 # later, Awaiting)"
      by (simp add: falsy_def)
    with pm show ?thesis by blast
  qed
  from fox accent bwd show ?thesis by (intro conjI)
qed

text \<open>
  C8.  When \<open>jump\<close> has shown its markers and waits for a key, \<open>repeatPosition\<close> is the
  first element of the \<open>remains\<close> that the loop built from the candidates of this very
  run, and undefined when that list is empty (at most 38 candidates labelled).  The
  value the manager held before the run plays no part.
\<close>

theorem repeatPosition_of_session:
  assumes "jump finder h s0 isFwd charArg = (s', log, Awaiting)"
    and "readReply h = Inr (cursor, startline, currline, lines0)"
    and "sub = subRange isFwd cursor startline currline lines0"
    and "positions = ordered isFwd (finder (searchCharacter h charArg) (fst sub) (wordJump s0) (snd sub))"
    and "rest = (if jumpOnTrigger s0 then tl positions else positions)"
  shows "\<exists>pm remains.
      assignLoop (screenPos isFwd cursor startline (fst sub)) 0 rest [] [] = Inr (pm, remains)
    \<and> positionMap s' = pm
    \<and> repeatPosition s' = (case remains of [] \<Rightarrow> None | r # _ \<Rightarrow> Some r)
    \<and> (length rest \<le> 38 \<longrightarrow> remains = [] \<and> repeatPosition s' = None)
    \<and> (38 < length rest \<longrightarrow>
          repeatPosition s' = Some (screenAt isFwd cursor startline (fst sub) (rest ! 38)))"
proof -
  let ?at = "screenAt isFwd cursor startline (fst sub)"
  note a = jump_Awaiting[OF assms]
  have "\<forall>p \<in> set rest. screenPos isFwd cursor startline (fst sub) p \<noteq> None"
    using a(2) by (simp add: screenPos_def)
  from assignLoop_screen[OF refl this]
  have run: "assignLoop (screenPos isFwd cursor startline (fst sub)) 0 rest [] []
               = Inr (labelsFor ?at characters rest, map ?at (drop 38 rest))"
    by simp
  have pm: "positionMap s' = labelsFor ?at characters rest"
    and rp: "repeatPosition s' = (case map ?at (drop 38 rest) of [] \<Rightarrow> None | r # _ \<Rightarrow> Some r)"
    using a(3) by simp_all
  have few: "length rest \<le> 38 \<longrightarrow> map ?at (drop 38 rest) = [] \<and> repeatPosition s' = None"
    using rp by simp
  have many: "38 < length rest \<longrightarrow> repeatPosition s' = Some (?at (rest ! 38))"
  proof
    assume "38 < length rest"
    then have "drop 38 rest = rest ! 38 # drop (Suc 38) rest"
      by (rule Cons_nth_drop_Suc[symmetric])
    with rp show "repeatPosition s' = Some (?at (rest ! 38))" by simp
  qed
  from run pm rp few many show ?thesis by blast
qed

theorem repeatPosition_of_session_witness:
  "\<exists>s' log.
     jump rowFinder rowHost rowManager False (Some (str ''x'')) = (s', log, Awaiting)
     \<and> repeatPosition rowManager = Some (1, 40)
     \<and> repeatPosition s' = Some (1, 6)"
proof -
  let ?f = "\<lambda>j. \<lparr>pos_line = 0, pos_character = j\<rparr>"
  let ?rest = "map (\<lambda>j. \<lparr>pos_line = 0, pos_character = 43 - j\<rparr>) [0..<44]"
  from row_jump obtain s' log where
    j: "jump rowFinder rowHost rowManager False (Some (str ''x'')) = (s', log, Awaiting)"
    by blast
  have a2: "readReply rowHost = Inr ((0, 45), 1, rowLine, [rowLine])"
    by (simp add: rowHost_def)
  have a3: "([take 45 rowLine], 0) = subRange False (0, 45) 1 rowLine [rowLine]"
    by (simp add: row_sub)
  have a4: "rev (map ?f [0..<45]) = ordered False (rowFinder (searchCharacter rowHost (Some (str ''x'')))
              (fst ([take 45 rowLine], 0::int)) (wordJump rowManager) (snd ([take 45 rowLine], 0::int)))"
    by (simp add: row_found ordered_def del: upt_Suc)
  have a5: "?rest = (if jumpOnTrigger rowManager then tl (rev (map ?f [0..<45])) else rev (map ?f [0..<45]))"
    by (simp add: row_rev rowManager_def newManager_def del: upt_Suc)
  from repeatPosition_of_session[where finder = rowFinder, OF j a2 a3 a4 a5]
  have "38 < length ?rest \<longrightarrow>
          repeatPosition s' = Some (screenAt False (0, 45) 1 (fst ([take 45 rowLine], 0::int)) (?rest ! 38))"
    by blast
  then have "repeatPosition s' = Some (1, 6)"
    using row_at[of 5] by simp
  moreover have "repeatPosition rowManager = Some (1, 40)"
    by (simp add: rowManager_def)
  ultimately show ?thesis using j by blast
qed

text \<open>
  C4, as the code has it.  \<open>cancel\<close> on a session that shows its markers (the editor
  having returned at least one handle) issues one batch that clears exactly the
  handles the editor returned when the markers were created, and leaves \<open>matchIds\<close>
  empty.  It does not touch \<open>positionMap\<close>: the label table of the session, which is
  not empty, is still there afterwards (\<open>jump\<close> clears it when it next starts).
\<close>

theorem cancel_clears_markers_only:
  assumes "jump finder h s0 isFwd charArg = (s, log, Awaiting)"
    and "fst (markReply h) \<noteq> []"
  shows "cancel s =
           (s\<lparr>matchIds := []\<rparr>,
            [PauseNotification, SetVarActivated0, CommandDoautocmdLeave,
             CallClearmatches (fst (markReply h)), ResumeNotification])
       \<and> matchIds (fst (cancel s)) = []
       \<and> positionMap (fst (cancel s)) = positionMap s
       \<and> positionMap s \<noteq> []"
  using jump_Awaiting_state[OF assms(1)] assms(2)
  by (simp add: cancel_def)

theorem cancel_clears_markers_only_witness:
  "cancel (fst (jump foxFinder foxHost (newManager 1000 True True) True None)) =
     ((newManager 1000 True True)
        \<lparr>matchIds := [],
         positionMap := [(str ''a'', \<lparr>ch_position = (2, 2), ch_character = str ''a''\<rparr>),
                         (str ''b'', \<lparr>ch_position = (3, 2), ch_character = str ''b''\<rparr>)],
         character := Some (str ''o'')\<rparr>,
      [PauseNotification, SetVarActivated0, CommandDoautocmdLeave,
       CallClearmatches [None, Some 4, Some 5, Some 6], ResumeNotification])"
proof -
  have m: "fst (markReply foxHost) \<noteq> []" by (simp add: foxHost_def)
  have f: "fst (markReply foxHost) = [None, Some 4, Some 5, Some 6]" by (simp add: foxHost_def)
  from cancel_clears_markers_only[OF fox_jump[of 1000 True] m]
  show ?thesis unfolding fox_jump f fst_conv by simp
qed

text \<open>
  C4 as stated fails: after the jump on the lines \<open>fox\<close>, \<open>box\<close>, \<open>cow\<close> the session is
  waiting with four handles, and \<open>cancel\<close> leaves the two labels in the table.
\<close>

theorem cancel_keeps_table_counterexample:
  "snd (snd (jump foxFinder foxHost (newManager 1000 True True) True None)) = Awaiting
   \<and> matchIds (fst (jump foxFinder foxHost (newManager 1000 True True) True None))
       = [None, Some 4, Some 5, Some 6]
   \<and> positionMap (fst (cancel (fst (jump foxFinder foxHost (newManager 1000 True True) True None))))
       = [(str ''a'', \<lparr>ch_position = (2, 2), ch_character = str ''a''\<rparr>),
          (str ''b'', \<lparr>ch_position = (3, 2), ch_character = str ''b''\<rparr>)]"
  by (simp add: fox_jump cancel_def)




text \<open>
  C2 fails on the code for a session started by \<open>repeatOpposite\<close>.  The manager's
  last jump went forward (\<open>isForward\<close> is set); \<open>repeatOpposite\<close> runs \<open>jump\<close> backward
  with the stored character, which leaves \<open>isForward\<close> as it is (lines 62-66).  There
  are more matches than labels, so the session waits with a repeat position.  On the
  key \<open>;\<close> the markers are cancelled and the cursor goes to the repeat position, as
  claimed, but \<open>jump\<close> is re-entered with the stored direction: forward, though the
  session ran backward.  In a session started by \<open>forward\<close>, \<open>backward\<close> or \<open>repeat\<close>
  the stored direction is the session's (\<open>stored_direction_by_entry\<close>), and the
  re-entry keeps it.
\<close>

theorem repeatOpposite_more_goes_forward:
  "isForward rowManager
   \<and> character rowManager = Some (str ''x'')
   \<and> repeatOpposite rowFinder rowHost rowManager
       = jump rowFinder rowHost rowManager False (Some (str ''x''))
   \<and> snd (snd (repeatOpposite rowFinder rowHost rowManager)) = Awaiting
   \<and> repeatPosition (fst (repeatOpposite rowFinder rowHost rowManager)) = Some (1, 6)
   \<and> fst (snd (getCharacter (fst (repeatOpposite rowFinder rowHost rowManager))
                  (KeyFirst (str '';''))))
       = [PauseNotification, SetVarActivated0, CommandDoautocmdLeave,
          CallClearmatches (fst (markReply rowHost)), ResumeNotification, CallCursor 1 6]
   \<and> snd (snd (getCharacter (fst (repeatOpposite rowFinder rowHost rowManager))
                  (KeyFirst (str '';''))))
       = Some (True, Some (str ''x''))"
proof -
  from row_jump obtain log where
    j: "jump rowFinder rowHost rowManager False (Some (str ''x'')) =
     (rowManager
        \<lparr>positionMap := labelsFor (screenAt False (0, 45) 1 [take 45 rowLine]) characters
                          (map (\<lambda>j. \<lparr>pos_line = 0, pos_character = 43 - j\<rparr>) [0..<44]),
         repeatPosition := Some (1, 6),
         matchIds := fst (markReply rowHost)\<rparr>,
      log, Awaiting)"
    by blast
  have m: "fst (markReply rowHost) \<noteq> []" by (simp add: rowHost_def)
  have f: "isForward rowManager" "character rowManager = Some (str ''x'')"
    by (simp_all add: rowManager_def newManager_def)
  show ?thesis
    unfolding row_opposite j fst_conv snd_conv
    using m f by (simp add: more_key_reenters cancel_def)
qed

text \<open>
  C5, as the code has it.  For a forward jump with the cursor's line inside the window,
  \<open>jump\<close> hands the position finder the window's lines from the cursor's line to the
  last one, whole, and the column offset \<open>cursor column + 1\<close>.  With a finder that skips
  what lies before the offset on the first line, every candidate on the cursor's own
  line lies strictly after the cursor column: an occurrence exactly at the cursor
  column is not a candidate.
\<close>

theorem forward_range_after_cursor:
  assumes "readReply h = Inr (cursor, startline, currline, lines0)"
    and "0 \<le> fst cursor - (startline - 1)"
    and "sub = subRange True cursor startline currline lines0"
    and "honoursOffset finder"
  shows "fst sub = drop (nat (fst cursor - (startline - 1))) lines0
       \<and> snd sub = snd cursor + 1
       \<and> jump finder h m True charArg =
           labelAndShow h (prompted h (m\<lparr>positionMap := []\<rparr>) True charArg) True cursor startline
             (fst sub)
             (finder (searchCharacter h charArg) (fst sub) (wordJump m) (snd sub))
             (readCalls @ (if falsy charArg then [CallAsyncGetchar] else []))
       \<and> (\<forall>p \<in> set (finder (searchCharacter h charArg) (fst sub) (wordJump m) (snd sub)).
             pos_line p = 0 \<longrightarrow> snd cursor < int (pos_character p))"
proof -
  have s: "sub = (drop (nat (fst cursor - (startline - 1))) lines0, snd cursor + 1)"
    using assms(2) by (simp add: assms(3) subRange_def sliceFrom_def relIndex_def min_def)
  have s1: "fst sub = drop (nat (fst cursor - (startline - 1))) lines0"
    and s2: "snd sub = snd cursor + 1"
    by (simp_all add: s)
  have j: "jump finder h m True charArg =
           labelAndShow h (prompted h (m\<lparr>positionMap := []\<rparr>) True charArg) True cursor startline
             (fst sub)
             (finder (searchCharacter h charArg) (fst sub) (wordJump m) (snd sub))
             (readCalls @ (if falsy charArg then [CallAsyncGetchar] else []))"
    using jump_Inr[OF assms(1), of finder m True charArg] by (simp add: assms(3))
  have a: "\<forall>p \<in> set (finder (searchCharacter h charArg) (fst sub) (wordJump m) (snd sub)).
             pos_line p = 0 \<longrightarrow> snd cursor < int (pos_character p)"
  proof (intro ballI impI)
    fix p
    assume "p \<in> set (finder (searchCharacter h charArg) (fst sub) (wordJump m) (snd sub))"
      and "pos_line p = 0"
    with assms(4) have "snd sub \<le> int (pos_character p)"
      unfolding honoursOffset_def by blast
    then show "snd cursor < int (pos_character p)" by (simp add: s2)
  qed
  show ?thesis
    using s1 s2 j a by (intro conjI)
qed

theorem forward_range_after_cursor_witness:
  "fst (subRange True (0, 0) 1 (str ''xx'') [str ''xx'']) = [str ''xx'']
   \<and> snd (subRange True (0, 0) 1 (str ''xx'') [str ''xx'']) = 1
   \<and> getPositions (\<lambda>l j. True) (str ''x'') [str ''xx''] False 1
       = [\<lparr>pos_line = 0, pos_character = 1\<rparr>]
   \<and> \<lparr>pos_line = 0, pos_character = 0\<rparr>
       \<notin> set (getPositions (\<lambda>l j. True) (str ''x'') [str ''xx''] False 1)"
proof -
  have a1: "readReply xxHost = Inr ((0, 0), 1, str ''xx'', [str ''xx''])"
    by (simp add: xxHost_def)
  have a2: "0 \<le> fst ((0::int), (0::int)) - (1 - 1)" by simp
  have a3: "([str ''xx''], 1) = subRange True (0, 0) 1 (str ''xx'') [str ''xx'']"
    by (simp add: xx_sub)
  note t = forward_range_after_cursor[where finder = "getPositions (\<lambda>l j. True)"
      and charArg = None and m = "newManager 1000 True False", OF a1 a2 a3 getPositions_honours]
  note t4 = t[THEN conjunct2, THEN conjunct2, THEN conjunct2]
  have b: "\<forall>p \<in> set (getPositions (\<lambda>l j. True) (str ''x'') [str ''xx''] False 1).
                 pos_line p = 0 \<longrightarrow> (0::int) < int (pos_character p)"
    using t4 by (simp add: searchCharacter_def falsy_def xxHost_def newManager_def)
  have "\<lparr>pos_line = 0, pos_character = 0\<rparr>
       \<notin> set (getPositions (\<lambda>l j. True) (str ''x'') [str ''xx''] False 1)"
  proof
    assume "\<lparr>pos_line = 0, pos_character = 0\<rparr>
       \<in> set (getPositions (\<lambda>l j. True) (str ''x'') [str ''xx''] False 1)"
    from bspec[OF b this] show False by simp
  qed
  then show ?thesis by (simp add: xx_sub xx_positions)
qed

text \<open>
  C5 as stated fails: on the line \<open>xx\<close> with the cursor on the first \<open>x\<close>, that \<open>x\<close> is
  an occurrence at the cursor column, and the only candidate of a forward jump is the
  second \<open>x\<close>, where \<open>forward\<close> then sends the cursor (column 2, counted from 1).
\<close>

theorem forward_range_counterexample:
  "occursAt (str ''x'') (str ''xx'') 0
   \<and> getPositions (\<lambda>l j. True) (str ''x'')
        (fst (subRange True (0, 0) 1 (str ''xx'') [str ''xx''])) False
        (snd (subRange True (0, 0) 1 (str ''xx'') [str ''xx'']))
       = [\<lparr>pos_line = 0, pos_character = 1\<rparr>]
   \<and> forward (getPositions (\<lambda>l j. True)) xxHost (newManager 1000 True False)
       = ((newManager 1000 True False)\<lparr>character := Some (str ''x'')\<rparr>,
          readCalls @ [CallAsyncGetchar, CallCursor 1 2], Returned)"
proof -
  have o: "occursAt (str ''x'') (str ''xx'') 0" by (simp add: occursAt_def str_def)
  have p: "getPositions (\<lambda>l j. True) (str ''x'')
        (fst (subRange True (0, 0) 1 (str ''xx'') [str ''xx''])) False
        (snd (subRange True (0, 0) 1 (str ''xx'') [str ''xx'']))
       = [\<lparr>pos_line = 0, pos_character = 1\<rparr>]"
    by (simp add: xx_sub xx_positions)
  have a1: "readReply xxHost = Inr ((0, 0), 1, str ''xx'', [str ''xx''])"
    by (simp add: xxHost_def)
  have b: "byteIndex (str ''xx'') 1 = 1"
    by (simp add: byteIndex_def slice_def relIndex_def str_def unitBytes_def)
  have f: "forward (getPositions (\<lambda>l j. True)) xxHost (newManager 1000 True False)
       = ((newManager 1000 True False)\<lparr>character := Some (str ''x'')\<rparr>,
          readCalls @ [CallAsyncGetchar, CallCursor 1 2], Returned)"
    unfolding forward_def jump_Inr[OF a1] xx_sub fst_conv snd_conv
    by (simp add: searchCharacter_def falsy_def xxHost_def newManager_def xx_positions
        labelAndShow_def ordered_def jumpToFirst_def screenPos_def screenAt_def b prompted_def)
  from o p f show ?thesis by blast
qed

text \<open>
  C6.  For a backward jump with the cursor inside the window, \<open>jump\<close> hands the
  position finder the window's lines up to the cursor's line, the last of them cut to
  the text strictly before the cursor column, with offset 0; and it reverses what the
  finder returns.  When the finder returns the positions in the order of appearance,
  the first candidate is the last match in the text, the one nearest before the cursor,
  and every other candidate comes before it.  The labels go to the candidates in that
  reversed order (all of them, or all but the first when \<open>jumpOnTrigger\<close> is set).
\<close>

theorem backward_range_reversed:
  assumes "readReply h = Inr (cursor, startline, currline, lines0)"
    and "0 \<le> fst cursor - (startline - 1)"
    and "fst cursor - (startline - 1) < int (length lines0)"
    and "0 \<le> snd cursor"
    and "sub = subRange False cursor startline currline lines0"
    and "found = finder (searchCharacter h charArg) (fst sub) (wordJump m) (snd sub)"
    and "found \<noteq> []"
    and "\<forall>p \<in> set found. pos_line p < length (fst sub)"
    and "sorted_wrt before found"
  shows "fst sub = take (nat (fst cursor - (startline - 1))) lines0 @ [take (nat (snd cursor)) currline]
       \<and> snd sub = 0
       \<and> ordered False found = rev found
       \<and> hd (ordered False found) = last found
       \<and> (\<forall>q \<in> set (tl (ordered False found)). before q (hd (ordered False found)))
       \<and> positionMap (fst (jump finder h m False charArg)) =
           labelsFor (screenAt False cursor startline (fst sub)) characters
             (if jumpOnTrigger m then tl (ordered False found) else ordered False found)"
proof -
  let ?k = "nat (fst cursor - (startline - 1))"
  have k: "?k < length lines0" using assms(2) assms(3) by simp
  have sl: "slice lines0 0 (fst cursor - (startline - 1) + 1) = take (Suc ?k) lines0"
    using slice_prefix_Suc[OF assms(2) assms(3)] .
  have ne: "take (Suc ?k) lines0 \<noteq> []" using k by auto
  have len: "length (take (Suc ?k) lines0) - 1 = ?k" using k by simp
  have upd: "(take (Suc ?k) lines0)[?k := v] = take ?k lines0 @ [v]" for v
    using update_last_of_prefix[OF k] .
  have cl: "slice currline 0 (snd cursor) = take (nat (snd cursor)) currline"
    using assms(4) by (simp add: slice_def relIndex_def min_def)
  have s: "sub = (take ?k lines0 @ [take (nat (snd cursor)) currline], 0)"
    unfolding assms(5) subRange_def Let_def sl
    using ne by (simp only: len upd cl) simp
  have s1: "fst sub = take ?k lines0 @ [take (nat (snd cursor)) currline]" and s2: "snd sub = 0"
    by (simp_all add: s)
  have o: "ordered False found = rev found" by (simp add: ordered_def)
  have h: "hd (ordered False found) = last found"
    using assms(7) by (simp add: o hd_rev)
  have t: "\<forall>q \<in> set (tl (ordered False found)). before q (hd (ordered False found))"
    using sorted_wrt_last[OF assms(9) assms(7)] assms(7)
    by (simp add: o hd_rev) (metis butlast_rev rev_rev_ident set_rev)
  note p = jump_table[where finder = finder and charArg = charArg and m = m,
      OF assms(1) assms(5) assms(6) assms(7) assms(8)]
  show ?thesis
    using s1 s2 o h t p by (intro conjI)
qed

theorem backward_range_reversed_witness:
  "fst (subRange False (5, 10) 1 (str ''abcxdefghijkl'') sixLines)
     = take 5 sixLines @ [take 10 (str ''abcxdefghijkl'')]
   \<and> hd (ordered False [\<lparr>pos_line = 2, pos_character = 1\<rparr>, \<lparr>pos_line = 5, pos_character = 3\<rparr>])
       = \<lparr>pos_line = 5, pos_character = 3\<rparr>
   \<and> positionMap (fst (jump sixFinder sixHost (newManager 1000 False True) False None))
       = [(str ''a'', \<lparr>ch_position = (6, 4), ch_character = str ''a''\<rparr>),
          (str ''b'', \<lparr>ch_position = (3, 2), ch_character = str ''b''\<rparr>)]"
proof -
  let ?found = "[\<lparr>pos_line = 2, pos_character = 1\<rparr>, \<lparr>pos_line = 5, pos_character = 3\<rparr>]"
  let ?sub = "subRange False (5, 10) 1 (str ''abcxdefghijkl'') sixLines"
  have a1: "readReply sixHost = Inr ((5, 10), 1, str ''abcxdefghijkl'', sixLines)"
    by (simp add: sixHost_def)
  have a2: "0 \<le> fst ((5::int), (10::int)) - (1 - 1)" by simp
  have a3: "fst ((5::int), (10::int)) - (1 - 1) < int (length sixLines)"
    by (simp add: sixLines_def)
  have a4: "0 \<le> snd ((5::int), (10::int))" by simp
  have a6: "?found = sixFinder (searchCharacter sixHost None) (fst ?sub)
              (wordJump (newManager 1000 False True)) (snd ?sub)"
    by (simp add: sixFinder_def)
  have a7: "?found \<noteq> []" by simp
  have a8: "\<forall>p \<in> set ?found. pos_line p < length (fst ?sub)"
    by (simp add: six_sub)
  have a9: "sorted_wrt before ?found" by (simp add: before_def)
  note t = backward_range_reversed[where finder = sixFinder and charArg = None
      and m = "newManager 1000 False True", OF a1 a2 a3 a4 refl a6 a7 a8 a9]
  have lab: "labelsFor
       (screenAt False (5, 10) 1
         [str ''abcdefghijkl'', str ''abcdefghijkl'', str ''axbcdefghijk'',
          str ''abcdefghijkl'', str ''abcdefghijkl'', str ''abcxdefghi''])
       characters [\<lparr>pos_line = 5, pos_character = 3\<rparr>, \<lparr>pos_line = 2, pos_character = 1\<rparr>]
     = [(str ''a'', \<lparr>ch_position = (6, 4), ch_character = str ''a''\<rparr>),
        (str ''b'', \<lparr>ch_position = (3, 2), ch_character = str ''b''\<rparr>)]"
    by (simp add: labelsFor_def characters_def six_at del: One_nat_def)
  have jt: "\<not> jumpOnTrigger (newManager 1000 False True)" by (simp add: newManager_def)
  from t have 1: "fst ?sub = take (nat (fst ((5::int), (10::int)) - (1 - 1))) sixLines
                     @ [take (nat (snd ((5::int), (10::int)))) (str ''abcxdefghijkl'')]"
    by (rule conjunct1)
  from t have 2: "hd (ordered False ?found) = last ?found"
    by (elim conjE)
  from t have 3: "positionMap (fst (jump sixFinder sixHost (newManager 1000 False True) False None)) =
           labelsFor (screenAt False (5, 10) 1 (fst ?sub)) characters
             (if jumpOnTrigger (newManager 1000 False True) then tl (ordered False ?found)
              else ordered False ?found)"
    by (elim conjE)
  from 1 have "fst ?sub = take 5 sixLines @ [take 10 (str ''abcxdefghijkl'')]" by simp
  moreover from 2 have "hd (ordered False ?found) = \<lparr>pos_line = 5, pos_character = 3\<rparr>" by simp
  moreover from 3 jt have "positionMap (fst (jump sixFinder sixHost (newManager 1000 False True) False None))
       = [(str ''a'', \<lparr>ch_position = (6, 4), ch_character = str ''a''\<rparr>),
          (str ''b'', \<lparr>ch_position = (3, 2), ch_character = str ''b''\<rparr>)]"
    by (simp add: six_sub ordered_def lab del: One_nat_def)
  ultimately show ?thesis by (intro conjI)
qed

end
